theory Spec2Isabelle
  imports Main "HOL-Library.Word"
begin

section \<open>The log writer of src/modules/logger/log\_writer.cpp\<close>

text \<open>
  The class \<^verbatim>\<open>px4::logger::LogWriter\<close> owns a byte array used as a ring buffer, the
  session flags and a file descriptor. A producer appends messages with \<^verbatim>\<open>write\<close>; the
  thread running \<^verbatim>\<open>run\<close> hands the unread bytes to the file.

  \<^verbatim>\<open>size_t\<close> and \<^verbatim>\<open>int\<close> are 32 bits wide on the flight controllers this firmware is
  built for, so both are 32-bit words here: \<^verbatim>\<open>size_t\<close> arithmetic wraps, comparisons of
  \<^verbatim>\<open>size_t\<close> values are unsigned, and an \<^verbatim>\<open>int\<close> is read with \<open>sint\<close>.
  The header log\_writer.h is not among the sources; the members it declares are taken
  with the types their uses in log\_writer.cpp need.
\<close>

type_synonym size_t = "32 word"
type_synonym cint = "32 word"
type_synonym byte = "8 word"

record log_writer =
  buffer :: "byte list"
  buffer_size :: size_t
  head :: size_t
  count :: size_t
  total_written :: size_t
  should_run :: bool
  running :: bool
  exit_thread :: bool
  fd :: int

subsection \<open>Construction\<close>

text \<open>
  \<^verbatim>\<open>_buffer_size(math::max(buffer_size, _min_write_chunk + 300))\<close>. The constant
  \<^verbatim>\<open>_min_write_chunk\<close> is declared in the missing header, so it is the parameter
  \<open>mwc\<close> of every definition that reads it. The other members get the values of a fresh
  object: no array yet, no file (\<open>fd = -1\<close>), all flags false.
\<close>

definition LogWriter :: "size_t \<Rightarrow> size_t \<Rightarrow> log_writer" where
  "LogWriter mwc requested =
     \<lparr>buffer = [], buffer_size = max requested (mwc + 300), head = 0, count = 0,
      total_written = 0, should_run = False, running = False, exit_thread = False,
      fd = - 1\<rparr>"

text \<open>
  \<^verbatim>\<open>init\<close>: \<open>mem\<close> is the array \<^verbatim>\<open>new uint8_t[_buffer_size]\<close> returned, with whatever
  bytes it holds; the empty list stands for the null pointer.
\<close>

definition init_lw :: "byte list \<Rightarrow> 'a log_writer_scheme \<Rightarrow> bool \<times> 'a log_writer_scheme" where
  "init_lw mem s = (if buffer s \<noteq> [] then (True, s) else (mem \<noteq> [], s\<lparr>buffer := mem\<rparr>))"

subsection \<open>Session control\<close>

text \<open>
  \<^verbatim>\<open>start_log\<close>: the argument is what \<^verbatim>\<open>::open\<close> returned. A negative descriptor
  is stored, clears \<^verbatim>\<open>_should_run\<close> and returns before the counters are touched.
\<close>

definition start_log :: "int \<Rightarrow> 'a log_writer_scheme \<Rightarrow> 'a log_writer_scheme" where
  "start_log opened s =
     (if opened < 0 then s\<lparr>fd := opened, should_run := False\<rparr>
      else s\<lparr>fd := opened, should_run := True, running := True,
              head := 0, count := 0, total_written := 0\<rparr>)"

definition stop_log :: "'a log_writer_scheme \<Rightarrow> 'a log_writer_scheme" where
  "stop_log s = s\<lparr>should_run := False\<rparr>"

definition thread_stop :: "'a log_writer_scheme \<Rightarrow> 'a log_writer_scheme" where
  "thread_stop s = s\<lparr>exit_thread := True, should_run := False\<rparr>"

subsection \<open>The ring buffer\<close>

text \<open>
  \<^verbatim>\<open>memcpy(&buf[off], src, n)\<close> on arrays as lists. C leaves a copy that runs past either
  array undefined; the lemmas below show that \<^verbatim>\<open>write\<close> stays inside both.
\<close>

definition memcpy :: "'a list \<Rightarrow> nat \<Rightarrow> 'a list \<Rightarrow> nat \<Rightarrow> 'a list" where
  "memcpy buf off src n = take off buf @ take n src @ drop (off + n) buf"

text \<open>
  \<^verbatim>\<open>write(ptr, size)\<close>: \<open>ptr\<close> is the memory the caller points at. The result is the
  returned flag and the object after the call (\<open>sz\<close> is the parameter \<^verbatim>\<open>size\<close>).
\<close>

definition write_lw ::
  "byte list \<Rightarrow> size_t \<Rightarrow> 'a log_writer_scheme \<Rightarrow> bool \<times> 'a log_writer_scheme" where
  "write_lw ptr sz s =
     (let available = buffer_size s - count s in
      if sz > available then (False, s)
      else
        let n = buffer_size s - head s;
            (buf1, head1, n1) =
               (if sz > n then (memcpy (buffer s) (unat (head s)) ptr (unat n), 0, n)
                else (buffer s, head s, 0));
            p = sz - n1;
            buf2 = memcpy buf1 (unat head1) (drop (unat n1) ptr) (unat p)
        in (True, s\<lparr>buffer := buf2, head := (head1 + p) mod buffer_size s,
                     count := count s + sz\<rparr>))"

text \<open>
  \<^verbatim>\<open>get_read_ptr\<close>: \<^verbatim>\<open>int read_ptr = _head - _count\<close> is the wrapped \<^verbatim>\<open>size_t\<close>
  difference read as a signed number. The result is the offset of \<^verbatim>\<open>*ptr\<close> in the
  array, the returned length and \<^verbatim>\<open>*is_part\<close>. Within the bounds of the data model the
  offset is not negative; the worker reads it with \<open>unat\<close>.
\<close>

definition get_read_ptr :: "'a log_writer_scheme \<Rightarrow> cint \<times> size_t \<times> bool" where
  "get_read_ptr s =
     (let read_ptr = head s - count s in
      if sint read_ptr < 0 then
        (let read_ptr' = read_ptr + buffer_size s
         in (read_ptr', buffer_size s - read_ptr', True))
      else (read_ptr, count s, False))"

text \<open>
  Modelled from the spec: \<^verbatim>\<open>mark_read\<close> is defined in the missing header log\_writer.h.
  The spec's \<^verbatim>\<open>consume(n)\<close> "decrements \<^verbatim>\<open>stored_count -= n\<close>" and "does not move
  \<^verbatim>\<open>write_cursor\<close>"; the comment at its call in \<^verbatim>\<open>run\<close> (line 213) says the same,
  \<^verbatim>\<open>_count -= written\<close>.
\<close>

definition mark_read :: "size_t \<Rightarrow> 'a log_writer_scheme \<Rightarrow> 'a log_writer_scheme" where
  "mark_read n s = s\<lparr>count := count s - n\<rparr>"

subsection \<open>The sink and the worker thread\<close>

text \<open>
  The file is an external collaborator: the model records every call the worker makes on
  it, in order. \<open>SWrite d span r\<close> is \<^verbatim>\<open>::write(d, read_ptr, available)\<close> with the
  \<open>available\<close> bytes at \<^verbatim>\<open>read_ptr\<close> and the value \<open>r\<close> the call returned;
  \<open>SFsync d\<close> is \<^verbatim>\<open>::fsync(d)\<close> and \<open>SClose d\<close> is \<^verbatim>\<open>::close(d)\<close>.
\<close>

datatype sink_call = SWrite int "byte list" cint | SFsync int | SClose int

text \<open>
  Where the thread running \<^verbatim>\<open>run\<close> stands: \<open>Idle\<close> in the \<^verbatim>\<open>pthread_cond_wait\<close> of the
  outer wait loop (line 152), \<open>Drain\<close> at the top of a pass through the drain loop
  (lines 164 to 187, waiting there when the data does not suffice), \<open>Writing\<close> after
  the mutex was released in line 189 with the locals \<^verbatim>\<open>read_ptr\<close>, \<^verbatim>\<open>available\<close> and
  \<^verbatim>\<open>is_part\<close>, \<open>Called\<close> inside the \<^verbatim>\<open>::write\<close> of line 194, with the descriptor
  and the bytes that call was given besides \<^verbatim>\<open>available\<close> and \<^verbatim>\<open>is_part\<close>, and
  \<open>Exited\<close> after \<^verbatim>\<open>run\<close> returned.
\<close>

datatype wpc =
  Idle | Drain | Writing cint size_t bool | Called int "byte list" size_t bool | Exited

text \<open>
  The object together with the locals of \<^verbatim>\<open>run\<close>. Two fields are bookkeeping of the
  model only: \<open>trace\<close>, the calls made on the sink so far, and \<open>accepted\<close>, the bytes
  of all messages for which \<^verbatim>\<open>write\<close> returned true, in call order.
\<close>

record worker = log_writer +
  pc :: wpc
  poll_count :: int
  trace :: "sink_call list"
  accepted :: "byte list"

text \<open>
  Lines 172 to 189, under the mutex: the thread leaves the wait loop when the condition of
  line 178 holds and waits for the next \<^verbatim>\<open>notify\<close> otherwise.
\<close>

definition begin_iter :: "size_t \<Rightarrow> worker \<Rightarrow> worker" where
  "begin_iter mwc s =
     (case get_read_ptr s of (read_ptr, available, is_part) \<Rightarrow>
        if available \<ge> mwc \<or> is_part \<or> \<not> should_run s
        then s\<lparr>pc := Writing read_ptr available is_part\<rparr>
        else s)"

text \<open>
  Lines 194 to 203, from the return of \<^verbatim>\<open>::write\<close> on: the call had been given the
  descriptor \<open>d\<close> and the bytes \<open>span\<close> and returns \<open>res\<close>; then the periodic
  \<^verbatim>\<open>fsync\<close>, on the descriptor the object holds at that time.
\<close>

definition sink_write :: "int \<Rightarrow> byte list \<Rightarrow> cint \<Rightarrow> worker \<Rightarrow> worker" where
  "sink_write d span res s =
     (let s1 = s\<lparr>trace := trace s @ [SWrite d span res],
                  poll_count := poll_count s + 1\<rparr>
      in if poll_count s1 \<ge> 100
         then s1\<lparr>trace := trace s1 @ [SFsync (fd s1)], poll_count := 0\<rparr>
         else s1)"

text \<open>
  A \<^verbatim>\<open>break\<close> out of the drain loop: the outer loop ends when \<^verbatim>\<open>_exit_thread\<close> is
  set and waits in line 152 otherwise.
\<close>

definition leave_loop :: "worker \<Rightarrow> worker" where
  "leave_loop s = s\<lparr>pc := (if exit_thread s then Exited else Idle)\<rparr>"

text \<open>Lines 222 to 236. The value of \<^verbatim>\<open>::close\<close> only selects a log message.\<close>

definition close_log :: "worker \<Rightarrow> worker" where
  "close_log s =
     (let s1 = s\<lparr>running := False, head := 0, count := 0\<rparr>
      in if fd s1 \<ge> 0 then s1\<lparr>trace := trace s1 @ [SClose (fd s1)], fd := - 1\<rparr> else s1)"

text \<open>Lines 220 to 239, with the local \<^verbatim>\<open>written\<close>.\<close>

definition end_iter :: "cint \<Rightarrow> size_t \<Rightarrow> bool \<Rightarrow> worker \<Rightarrow> worker" where
  "end_iter written available is_part s =
     (if \<not> should_run s \<and> written = available \<and> \<not> is_part
      then leave_loop (close_log s)
      else s\<lparr>pc := Drain\<rparr>)"

text \<open>
  Lines 190 to 239: the rest of the pass, \<open>res\<close> being the sink's answer to a call
  that was given the descriptor \<open>d\<close> and the bytes \<open>span\<close>.
\<close>

definition finish_call ::
  "cint \<Rightarrow> int \<Rightarrow> byte list \<Rightarrow> size_t \<Rightarrow> bool \<Rightarrow> worker \<Rightarrow> worker" where
  "finish_call res d span available is_part s =
     (if available > 0 then
        (let s1 = sink_write d span res s in
         if sint res < 0 then leave_loop (s1\<lparr>should_run := False\<rparr>)
         else
           (let s2 = mark_read res s1;
                s3 = s2\<lparr>total_written := total_written s2 + res\<rparr>
            in end_iter res available is_part s3))
      else end_iter 0 available is_part s)"

text \<open>
  The same when no other thread acts between the call of \<^verbatim>\<open>::write\<close> and its return:
  the call is given \<^verbatim>\<open>_fd\<close> and the \<open>available\<close> bytes at \<^verbatim>\<open>read_ptr\<close> as they are
  now.
\<close>

definition finish_iter :: "cint \<Rightarrow> cint \<Rightarrow> size_t \<Rightarrow> bool \<Rightarrow> worker \<Rightarrow> worker" where
  "finish_iter res read_ptr available is_part s =
     finish_call res (fd s) (take (unat available) (drop (unat read_ptr) (buffer s)))
       available is_part s"

text \<open>
  Lines 149 to 162: the thread returns from the wait of line 152. It enters the drain
  loop, with \<^verbatim>\<open>poll_count = 0\<close>, when \<^verbatim>\<open>_should_run\<close> is set and also when the loop
  condition \<^verbatim>\<open>!_exit_thread\<close> fails; otherwise it waits again.
\<close>

definition wake :: "worker \<Rightarrow> worker" where
  "wake s = (if should_run s \<or> exit_thread s then s\<lparr>pc := Drain, poll_count := 0\<rparr> else s)"

text \<open>
  What can happen to the object, one event at a time. The controller and the producer
  call \<^verbatim>\<open>start_log\<close>, \<^verbatim>\<open>stop_log\<close>, \<^verbatim>\<open>thread_stop\<close> and \<^verbatim>\<open>write\<close>; the worker thread
  moves by \<open>Wake\<close>, \<open>Begin\<close>, \<open>Call\<close> and \<open>Finish\<close>. A pass through the drain loop
  is several events because the mutex is free from line 189 on, so the other events can
  fall between them: \<open>Begin\<close> is the part under the mutex, \<open>Call\<close> is the moment
  \<^verbatim>\<open>::write\<close> is called with \<^verbatim>\<open>_fd\<close> and the bytes at \<^verbatim>\<open>read_ptr\<close>, and \<open>Finish\<close> is
  its return and the rest of the pass. \<open>Finish\<close> straight after \<open>Begin\<close> is a call
  that returns before any other thread acts. An event that cannot happen gives \<open>None\<close>:
  a worker move from another place of \<^verbatim>\<open>run\<close>, a \<^verbatim>\<open>write\<close> whose \<open>ptr\<close> holds fewer
  than \<open>size\<close> bytes, a sink that claims to have written more than it was given.
\<close>

datatype event =
  StartLog int | StopLog | ThreadStop | Append "byte list" size_t | Wake | Begin | Call |
  Finish cint

fun step :: "size_t \<Rightarrow> event \<Rightarrow> worker \<Rightarrow> worker option" where
  "step mwc (StartLog opened) s = Some (start_log opened s)"
| "step mwc StopLog s = Some (stop_log s)"
| "step mwc ThreadStop s = Some (thread_stop s)"
| "step mwc (Append ptr sz) s =
     (if unat sz \<le> length ptr then
        (case write_lw ptr sz s of (ok, s') \<Rightarrow>
           Some (if ok then s'\<lparr>accepted := accepted s' @ take (unat sz) ptr\<rparr> else s'))
      else None)"
| "step mwc Wake s = (if pc s = Idle then Some (wake s) else None)"
| "step mwc Begin s = (if pc s = Drain then Some (begin_iter mwc s) else None)"
| "step mwc Call s =
     (case pc s of
        Writing read_ptr available is_part \<Rightarrow>
          if 0 < available
          then Some (s\<lparr>pc := Called (fd s)
                         (take (unat available) (drop (unat read_ptr) (buffer s)))
                         available is_part\<rparr>)
          else None
      | _ \<Rightarrow> None)"
| "step mwc (Finish res) s =
     (case pc s of
        Writing read_ptr available is_part \<Rightarrow>
          if sint res < 0 \<or> res \<le> available
          then Some (finish_iter res read_ptr available is_part s)
          else None
      | Called d span available is_part \<Rightarrow>
          if sint res < 0 \<or> res \<le> available
          then Some (finish_call res d span available is_part s)
          else None
      | _ \<Rightarrow> None)"

fun exec :: "size_t \<Rightarrow> event list \<Rightarrow> worker \<Rightarrow> worker option" where
  "exec mwc [] s = Some s"
| "exec mwc (e # es) s = (case step mwc e s of None \<Rightarrow> None | Some s' \<Rightarrow> exec mwc es s')"

subsection \<open>The notions of the specification\<close>

text \<open>
  The bounds of the spec's data model, together with the array having the size the
  object records. \<open>head s < buffer_size s\<close> and \<open>count s \<le> buffer_size s\<close> compare
  unsigned, so both values are also at least 0.
\<close>

definition ring_inv :: "'a log_writer_scheme \<Rightarrow> bool" where
  "ring_inv s \<longleftrightarrow>
     length (buffer s) = unat (buffer_size s) \<and> head s < buffer_size s \<and>
     count s \<le> buffer_size s"

text \<open>The buffer size fits an \<^verbatim>\<open>int\<close>, as \<^verbatim>\<open>get_read_ptr\<close> needs.\<close>

definition fits_int :: "'a log_writer_scheme \<Rightarrow> bool" where
  "fits_int s \<longleftrightarrow> unat (buffer_size s) < 2 ^ 31"

text \<open>The spec's \<open>read_pos = (write_cursor - stored_count) mod capacity\<close>, over the integers.\<close>

definition read_pos :: "'a log_writer_scheme \<Rightarrow> nat" where
  "read_pos s = nat ((int (unat (head s)) - int (unat (count s))) mod int (unat (buffer_size s)))"

text \<open>
  The unread bytes: the \<open>count\<close> bytes found in the array from \<open>read_pos\<close> on, going
  round at the end (\<open>rotate n xs\<close> is \<open>xs\<close> read from index \<open>n\<close> on, followed by its
  first \<open>n\<close> elements).
\<close>

definition unread :: "'a log_writer_scheme \<Rightarrow> byte list" where
  "unread s = take (unat (count s)) (rotate (read_pos s) (buffer s))"

text \<open>
  The bytes the file holds after a sequence of calls: a write that returned \<open>r \<ge> 0\<close>
  stored the first \<open>r\<close> bytes it was given, a write that failed stored none.
\<close>

fun stored :: "sink_call \<Rightarrow> byte list" where
  "stored (SWrite d span r) = (if sint r < 0 then [] else take (unat r) span)"
| "stored (SFsync d) = []"
| "stored (SClose d) = []"

definition delivered :: "sink_call list \<Rightarrow> byte list" where
  "delivered tr = concat (map stored tr)"

subsection \<open>States used as examples\<close>

text \<open>
  A 1024-byte buffer after \<^verbatim>\<open>write\<close> of 900 bytes into the empty buffer; a 600-byte
  buffer (the size the constructor gives for a chunk of 300) in which the last five bytes
  of the array are unread and the write position is back at 0; a ring of six bytes whose
  unread region goes round the end.
\<close>

definition full900 :: log_writer where
  "full900 = \<lparr>buffer = replicate 1024 0, buffer_size = 1024, head = 900, count = 900,
      total_written = 0, should_run = True, running = True, exit_thread = False, fd = 3\<rparr>"

definition drained595 :: log_writer where
  "drained595 = \<lparr>buffer = replicate 600 0, buffer_size = 600, head = 0, count = 5,
      total_written = 595, should_run = True, running = True, exit_thread = False, fd = 3\<rparr>"

definition ring6 :: log_writer where
  "ring6 = \<lparr>buffer = [1, 2, 3, 4, 5, 6], buffer_size = 6, head = 1, count = 3,
      total_written = 0, should_run = True, running = True, exit_thread = False, fd = 3\<rparr>"

text \<open>
  An object together with a worker thread standing at \<open>p\<close> with \<^verbatim>\<open>poll_count = k\<close>,
  before any call on the sink and any accepted message.
\<close>

definition attach :: "log_writer \<Rightarrow> wpc \<Rightarrow> int \<Rightarrow> worker" where
  "attach l p k =
     \<lparr>buffer = buffer l, buffer_size = buffer_size l, head = head l, count = count l,
      total_written = total_written l, should_run = should_run l, running = running l,
      exit_thread = exit_thread l, fd = fd l,
      pc = p, poll_count = k, trace = [], accepted = []\<rparr>"

subsection \<open>Notions for the worker's runs\<close>

text \<open>Kinds of sink calls and of events.\<close>

fun is_write :: "sink_call \<Rightarrow> bool" where
  "is_write (SWrite d span r) = True"
| "is_write _ = False"

fun is_fsync :: "sink_call \<Rightarrow> bool" where
  "is_fsync (SFsync d) = True"
| "is_fsync _ = False"

fun is_close :: "sink_call \<Rightarrow> bool" where
  "is_close (SClose d) = True"
| "is_close _ = False"

text \<open>The events of a running session: messages arrive and the worker drains.\<close>

fun session_event :: "event \<Rightarrow> bool" where
  "session_event (Append ptr sz) = True"
| "session_event Begin = True"
| "session_event Call = True"
| "session_event (Finish res) = True"
| "session_event _ = False"

text \<open>The events that let the worker enter the drain loop again.\<close>

fun restarts :: "event \<Rightarrow> bool" where
  "restarts (StartLog opened) = True"
| "restarts ThreadStop = True"
| "restarts _ = False"

text \<open>
  The flush cadence, read on a sequence of sink calls with the newest call first, made
  after \<open>k\<close> writes without a flush. \<open>since_flush\<close> counts the writes since the last
  \<^verbatim>\<open>fsync\<close>. \<open>flush_cadence\<close> holds when every \<^verbatim>\<open>fsync\<close> comes directly after a
  write that was the 100th since the previous \<^verbatim>\<open>fsync\<close>, and no other call is made
  while 100 writes are waiting for their flush.
\<close>

fun since_flush :: "nat \<Rightarrow> sink_call list \<Rightarrow> nat" where
  "since_flush k [] = k"
| "since_flush k (SWrite d span r # tr) = Suc (since_flush k tr)"
| "since_flush k (SFsync d # tr) = 0"
| "since_flush k (SClose d # tr) = since_flush k tr"

fun flush_cadence :: "nat \<Rightarrow> sink_call list \<Rightarrow> bool" where
  "flush_cadence k [] = True"
| "flush_cadence k (SFsync d # tr) =
     (tr \<noteq> [] \<and> is_write (hd tr) \<and> since_flush k tr = 100 \<and> flush_cadence k tr)"
| "flush_cadence k (c # tr) = (since_flush k tr < 100 \<and> flush_cadence k tr)"

text \<open>
  Between line 189 and the return of \<^verbatim>\<open>::write\<close>, the locals of the pass describe a run
  that starts at the read position, lies inside the array and holds unread bytes only;
  the bytes a running \<^verbatim>\<open>::write\<close> was given are the first \<open>available\<close> unread bytes.
\<close>

definition sample_ok :: "worker \<Rightarrow> bool" where
  "sample_ok s =
     (case pc s of
        Writing read_ptr available is_part \<Rightarrow>
          unat read_ptr = read_pos s \<and> unat available \<le> unat (count s) \<and>
          read_pos s + unat available \<le> unat (buffer_size s)
      | Called d span available is_part \<Rightarrow>
          span = take (unat available) (unread s) \<and> unat available \<le> unat (count s)
      | _ \<Rightarrow> True)"

definition session_inv :: "worker \<Rightarrow> bool" where
  "session_inv s \<longleftrightarrow> ring_inv s \<and> fits_int s \<and> sample_ok s"

text \<open>
  The call of \<^verbatim>\<open>::write\<close> the worker is about to return from: the descriptor and the
  bytes the call was given, with the locals \<^verbatim>\<open>available\<close> and \<^verbatim>\<open>is_part\<close>. From line
  189 until the call it is what the call would be given now.
\<close>

definition in_flight :: "worker \<Rightarrow> (int \<times> byte list \<times> size_t \<times> bool) option" where
  "in_flight s =
     (case pc s of
        Writing read_ptr available is_part \<Rightarrow>
          Some (fd s, take (unat available) (drop (unat read_ptr) (buffer s)), available,
                is_part)
      | Called d span available is_part \<Rightarrow> Some (d, span, available, is_part)
      | _ \<Rightarrow> None)"

text \<open>
  The calls a pass makes on the sink before line 205, its \<^verbatim>\<open>::write\<close> having been given
  the descriptor \<open>d\<close> and the bytes \<open>span\<close>: none when nothing is available, else the
  write and, when the write is the 100th counted, the \<^verbatim>\<open>fsync\<close>.
\<close>

definition calls_of :: "int \<Rightarrow> byte list \<Rightarrow> cint \<Rightarrow> size_t \<Rightarrow> worker \<Rightarrow> sink_call list" where
  "calls_of d span res available s =
     (if 0 < available
      then SWrite d span res # (if 100 \<le> poll_count s + 1 then [SFsync (fd s)] else [])
      else [])"

text \<open>The same for a call that returns before any other thread acts.\<close>

definition sink_calls :: "cint \<Rightarrow> cint \<Rightarrow> size_t \<Rightarrow> worker \<Rightarrow> sink_call list" where
  "sink_calls res read_ptr available s =
     calls_of (fd s) (take (unat available) (drop (unat read_ptr) (buffer s))) res
       available s"


definition failing :: worker where
  "failing = attach full900 (Writing 0 900 False) 0"

text \<open>
  What holds of the sink calls \<open>new\<close> made since a moment with \<open>k\<close> unflushed
  writes, and of \<^verbatim>\<open>poll_count\<close>, whenever the worker is between two events.
\<close>

definition cadence_inv :: "nat \<Rightarrow> sink_call list \<Rightarrow> int \<Rightarrow> bool" where
  "cadence_inv k new p \<longleftrightarrow>
     flush_cadence k (rev new) \<and> p = int (since_flush k (rev new)) \<and> p < 100"

text \<open>A worker in the middle of a pass whose write is the 100th counted.\<close>

definition hundredth :: worker where
  "hundredth = attach full900 (Writing 0 900 False) 99"

text \<open>The places of \<^verbatim>\<open>run\<close> inside the drain loop.\<close>

fun in_loop :: "wpc \<Rightarrow> bool" where
  "in_loop Drain = True"
| "in_loop (Writing read_ptr available is_part) = True"
| "in_loop (Called d span available is_part) = True"
| "in_loop _ = False"

text \<open>
  A session begins: the buffer is empty, \<^verbatim>\<open>_should_run\<close> is set, the worker stands at the
  top of the drain loop, and nothing was written or accepted yet.
\<close>

definition session_start :: "worker \<Rightarrow> bool" where
  "session_start s \<longleftrightarrow>
     ring_inv s \<and> fits_int s \<and> count s = 0 \<and> should_run s \<and> pc s = Drain \<and>
     trace s = [] \<and> accepted s = []"

text \<open>
  What holds between two events of a running session: the bytes the file holds, followed
  by the unread bytes of the buffer, are the bytes of the accepted messages in call order.
\<close>

definition fifo_inv :: "worker \<Rightarrow> bool" where
  "fifo_inv s \<longleftrightarrow>
     session_inv s \<and> delivered (trace s) @ unread s = accepted s \<and>
     (in_loop (pc s) \<longrightarrow> should_run s)"

text \<open>
  The bytes a call of \<^verbatim>\<open>write\<close> passes, and a run of events in which every call of
  \<^verbatim>\<open>write\<close> finds room (returns true).
\<close>

fun payload :: "event \<Rightarrow> byte list" where
  "payload (Append ptr sz) = take (unat sz) ptr"
| "payload _ = []"

fun no_overflow :: "size_t \<Rightarrow> event list \<Rightarrow> worker \<Rightarrow> bool" where
  "no_overflow mwc [] s = True"
| "no_overflow mwc (e # es) s =
     ((case e of Append ptr sz \<Rightarrow> fst (write_lw ptr sz s) | _ \<Rightarrow> True) \<and>
      (case step mwc e s of None \<Rightarrow> True | Some s' \<Rightarrow> no_overflow mwc es s'))"

text \<open>
  The start of the spec's scenario: an object built for a chunk of 300 and a requested
  size of 1024, initialised, with a session started on descriptor 3 and the worker woken
  into the drain loop.
\<close>

definition scenario_start :: "byte list \<Rightarrow> worker" where
  "scenario_start mem =
     wake (start_log 3 (snd (init_lw mem (attach (LogWriter 300 1024) Idle 0))))"

section \<open>Arithmetic of the 32-bit values\<close>

lemma uint_small:
  fixes a :: "32 word"
  assumes "unat a < 2 ^ 31"
  shows "uint a < 2 ^ 31"
proof -
  have "int (unat a) < int (2 ^ 31)" using assms by (rule iffD2 [OF of_nat_less_iff])
  then show ?thesis by simp
qed

lemma sint_small:
  fixes a :: "32 word"
  assumes "unat a < 2 ^ 31"
  shows "sint a = uint a"
proof -
  have "signed_take_bit 31 (uint a) = uint a"
    using uint_small [OF assms]
    by (intro signed_take_bit_int_eq_self) (auto intro: order_trans [of _ 0])
  then show ?thesis by (simp add: sint_uint)
qed

lemma sint_diff_small:
  fixes a b :: "32 word"
  assumes "unat a < 2 ^ 31" "unat b < 2 ^ 31"
  shows "sint (a - b) = uint a - uint b"
proof -
  have "0 \<le> uint a" "0 \<le> uint b" by simp_all
  then have "signed_take_bit 31 (uint a - uint b) = uint a - uint b"
    using uint_small [OF assms(1)] uint_small [OF assms(2)]
    by (intro signed_take_bit_int_eq_self) linarith+
  then show ?thesis
    using assms by (simp add: sint_word_ariths sint_small)
qed

lemma sint_diff_neg_iff:
  fixes a b :: "32 word"
  assumes "unat a < 2 ^ 31" "unat b < 2 ^ 31"
  shows "sint (a - b) < 0 \<longleftrightarrow> a < b"
  by (simp add: sint_diff_small [OF assms] word_less_def)

lemma nat_ring_mod:
  fixes h c n :: nat
  assumes "h < n" "c \<le> n"
  shows "nat ((int h - int c) mod int n) = (if c \<le> h then h - c else h + n - c)"
proof (cases "c \<le> h")
  case True
  have a: "0 \<le> int h - int c" using True by linarith
  have b: "int h - int c < int n" using assms by linarith
  have "(int h - int c) mod int n = int h - int c"
    using a b by (rule mod_pos_pos_trivial)
  then have "nat ((int h - int c) mod int n) = nat (int h - int c)" by (rule arg_cong)
  moreover have "nat (int h - int c) = h - c" by linarith
  ultimately show ?thesis using True by (simp only: if_True)
next
  case False
  have a: "0 \<le> int h - int c + int n" using assms by linarith
  have b: "int h - int c + int n < int n" using False by linarith
  have "(int h - int c + int n) mod int n = int h - int c + int n"
    using a b by (rule mod_pos_pos_trivial)
  moreover have "(int h - int c + int n) mod int n = (int h - int c) mod int n"
    by (rule mod_add_self2)
  ultimately have "(int h - int c) mod int n = int h - int c + int n" by (simp only:)
  then have "nat ((int h - int c) mod int n) = nat (int h - int c + int n)" by (rule arg_cong)
  moreover have "nat (int h - int c + int n) = h + n - c" using assms by linarith
  ultimately show ?thesis using False by (simp only: if_False)
qed

section \<open>Storing into a ring of bytes\<close>

lemma split_at:
  assumes "a \<le> length xs"
  shows "\<exists>A B. xs = A @ B \<and> length A = a"
  using assms by (intro exI [of _ "take a xs"] exI [of _ "drop a xs"]) simp

lemma split4:
  assumes "a + b + c \<le> length xs"
  shows "\<exists>A B C D. xs = A @ B @ C @ D \<and> length A = a \<and> length B = b \<and> length C = c"
proof -
  obtain A X where 1: "xs = A @ X" "length A = a" using split_at [of a xs] assms by auto
  then have "b \<le> length X" using assms by simp
  then obtain B Y where 2: "X = B @ Y" "length B = b" using split_at [of b X] by auto
  then have "c \<le> length Y" using assms 1 by simp
  then obtain C D where 3: "Y = C @ D" "length C = c" using split_at [of c Y] by auto
  show ?thesis using 1 2 3 by blast
qed

text \<open>
  The three ways a message meets the array, each with the array cut into the pieces the
  copy touches: the unread bytes \<open>U\<close> in one piece and the message beside them, the
  unread bytes going round the end, and the message going round the end.
\<close>

lemma store_plain:
  assumes "length W = length P"
  shows "take (length U + length P)
           (rotate (length A) (memcpy (A @ U @ W @ R) (length A + length U) (P @ Q) (length P)))
         = U @ P"
proof -
  have "memcpy (A @ U @ W @ R) (length A + length U) (P @ Q) (length P) = A @ (U @ P @ R)"
    using assms by (simp add: memcpy_def)
  moreover have "rotate (length A) (A @ (U @ P @ R)) = (U @ P @ R) @ A"
    by (rule rotate_append)
  ultimately show ?thesis by simp
qed

lemma store_beside:
  assumes "length W = length P"
  shows "take (length U1 + length U2 + length P)
           (rotate (length U2 + length W + length R) (memcpy (U2 @ W @ R @ U1) (length U2) (P @ Q) (length P)))
         = U1 @ U2 @ P"
proof -
  have "memcpy (U2 @ W @ R @ U1) (length U2) (P @ Q) (length P) = (U2 @ P @ R) @ U1"
    using assms by (simp add: memcpy_def)
  moreover have "rotate (length (U2 @ P @ R)) ((U2 @ P @ R) @ U1) = U1 @ (U2 @ P @ R)"
    by (rule rotate_append)
  ultimately show ?thesis using assms by (simp add: add.assoc)
qed

lemma store_split:
  assumes "length W1 = length P1" "length W2 = length P2"
  shows "take (length U + (length P1 + length P2))
           (rotate (length W2 + length R)
              (memcpy (memcpy (W2 @ R @ U @ W1) (length W2 + length R + length U) (P1 @ P2 @ Q) (length P1))
                 0 (drop (length P1) (P1 @ P2 @ Q)) (length P2)))
         = U @ P1 @ P2"
proof -
  have "memcpy (W2 @ R @ U @ W1) (length W2 + length R + length U) (P1 @ P2 @ Q) (length P1)
        = W2 @ R @ U @ P1"
    using assms by (simp add: memcpy_def)
  moreover have "memcpy (W2 @ R @ U @ P1) 0 (drop (length P1) (P1 @ P2 @ Q)) (length P2)
        = (P2 @ R) @ (U @ P1)"
    using assms by (simp add: memcpy_def)
  moreover have "rotate (length (P2 @ R)) ((P2 @ R) @ (U @ P1)) = (U @ P1) @ (P2 @ R)"
    by (rule rotate_append)
  ultimately show ?thesis using assms by simp
qed


lemma rotate_take_unread:
  "take (length U) (rotate (length A) (A @ U @ R)) = U"
proof -
  have "rotate (length A) (A @ (U @ R)) = (U @ R) @ A" by (rule rotate_append)
  then show ?thesis by simp
qed

lemma ring_store:
  fixes buf ptr :: "'a list" and h c k n :: nat
  assumes len: "length buf = n" and h: "h < n" and ck: "c + k \<le> n" and kp: "k \<le> length ptr"
  defines "rp \<equiv> (if c \<le> h then h - c else h + n - c)"
  defines "buf' \<equiv> (if k > n - h
                     then memcpy (memcpy buf h ptr (n - h)) 0 (drop (n - h) ptr) (k - (n - h))
                     else memcpy buf h ptr k)"
  shows "take (c + k) (rotate rp buf') = take c (rotate rp buf) @ take k ptr"
proof -
  consider (plain) "c \<le> h" "k \<le> n - h" | (beside) "h < c" | (split) "c \<le> h" "n - h < k"
    by linarith
  then show ?thesis
  proof cases
    case plain
    have "(h - c) + c + k \<le> length buf" using plain h len by simp
    from split4 [OF this] obtain A U W R where
      b: "buf = A @ U @ W @ R" "length A = h - c" "length U = c" "length W = k" by blast
    from split_at [OF kp] obtain P Q where p: "ptr = P @ Q" "length P = k" by blast
    have e: "h = length A + length U" "c = length U" "k = length P" "rp = length A"
      using plain b p by (simp_all add: rp_def)
    have w: "length W = length P" using b p by simp
    have "buf' = memcpy buf h ptr k" using plain by (simp add: buf'_def)
    then show ?thesis
      unfolding b(1) p(1) e using store_plain [OF w, of U A R Q] rotate_take_unread [of U A "W @ R"]
      by simp
  next
    case beside
    have "h + k + (n - c - k) \<le> length buf" using beside ck len by simp
    from split4 [OF this] obtain U2 W R U1 where
      b: "buf = U2 @ W @ R @ U1" "length U2 = h" "length W = k" "length R = n - c - k" by blast
    from split_at [OF kp] obtain P Q where p: "ptr = P @ Q" "length P = k" by blast
    have u1: "length U1 = c - h" using b len beside ck by simp
    have e: "h = length U2" "c = length U1 + length U2" "k = length P"
      "rp = length U2 + length W + length R"
      using beside b p u1 ck by (simp_all add: rp_def)
    have w: "length W = length P" using b p by simp
    have "\<not> n - h < k" using beside ck h by linarith
    then have "buf' = memcpy buf h ptr k" by (simp add: buf'_def)
    moreover have "rotate (length (U2 @ W @ R)) ((U2 @ W @ R) @ U1) = U1 @ (U2 @ W @ R)"
      by (rule rotate_append)
    ultimately show ?thesis
      unfolding b(1) p(1) e using store_beside [OF w, of U1 U2 R Q]
      by (simp add: add.assoc)
  next
    case split
    have "(k - (n - h)) + (h - c - (k - (n - h))) + c \<le> length buf"
      using split ck h len by simp
    from split4 [OF this] obtain W2 R U W1 where
      b: "buf = W2 @ R @ U @ W1" "length W2 = k - (n - h)"
         "length R = h - c - (k - (n - h))" "length U = c" by blast
    have w1: "length W1 = n - h" using b len split ck h by simp
    have "n - h \<le> length ptr" using split kp by simp
    from split_at [OF this] obtain P1 X where p1: "ptr = P1 @ X" "length P1 = n - h" by blast
    have "k - (n - h) \<le> length X" using p1 kp by simp
    from split_at [OF this] obtain P2 Q where p2: "X = P2 @ Q" "length P2 = k - (n - h)" by blast
    have p: "ptr = P1 @ P2 @ Q" using p1 p2 by simp
    have e: "h = length W2 + length R + length U" "c = length U" "k = length P1 + length P2"
      "rp = length W2 + length R" "n - h = length P1"
      using split b p1 p2 ck h by (simp_all add: rp_def)
    have w: "length W1 = length P1" "length W2 = length P2" using b w1 p1 p2 by simp_all
    have "buf' = memcpy (memcpy buf h ptr (length P1)) 0 (drop (length P1) ptr) (length P2)"
      using split p1(2) p2(2) by (simp add: buf'_def)
    moreover have "rotate (length (W2 @ R)) ((W2 @ R) @ (U @ W1)) = (U @ W1) @ (W2 @ R)"
      by (rule rotate_append)
    ultimately show ?thesis
      unfolding b(1) p e(1-4) using store_split [OF w, of U R Q]
      by simp
  qed
qed


section \<open>The ring buffer operations on natural numbers\<close>

lemma ring_inv_nat:
  assumes "ring_inv s"
  shows "unat (head s) < unat (buffer_size s)" "unat (count s) \<le> unat (buffer_size s)"
        "length (buffer s) = unat (buffer_size s)"
  using assms by (simp_all add: ring_inv_def word_less_nat_alt word_le_nat_alt)

lemma read_pos_cases:
  assumes "ring_inv s"
  shows "read_pos s = (if unat (count s) \<le> unat (head s) then unat (head s) - unat (count s)
                       else unat (head s) + unat (buffer_size s) - unat (count s))"
  unfolding read_pos_def
  by (rule nat_ring_mod [OF ring_inv_nat(1,2) [OF assms]])

lemma read_pos_less:
  assumes "ring_inv s"
  shows "read_pos s < unat (buffer_size s)"
  using ring_inv_nat(1,2) [OF assms] unfolding read_pos_cases [OF assms]
  by (auto split: if_splits)

text \<open>The unsigned arithmetic of \<^verbatim>\<open>write\<close>, read as natural numbers.\<close>

lemma fits_nat:
  fixes n c sz :: "32 word"
  assumes "c \<le> n" "sz \<le> n - c"
  shows "unat c + unat sz \<le> unat n"
  using assms by unat_arith

lemma split_test:
  fixes n h sz :: "32 word"
  assumes "h < n"
  shows "n - h < sz \<longleftrightarrow> unat n - unat h < unat sz"
  using assms by unat_arith

lemma split_head:
  fixes n h c sz :: "32 word"
  assumes "h < n" "c \<le> n" "sz \<le> n - c" "n - h < sz"
  shows "unat ((0 + (sz - (n - h))) mod n) = (unat h + unat sz) mod unat n"
    and "unat (n - h) = unat n - unat h"
    and "unat (sz - (n - h)) = unat sz - (unat n - unat h)"
proof -
  have 1: "unat (sz - (n - h)) = unat h + unat sz - unat n" using assms by unat_arith
  have 2: "unat h + unat sz - unat n < unat n" using assms by unat_arith
  have 3: "unat n \<le> unat h + unat sz" using assms by unat_arith
  have 4: "unat h + unat sz < unat n + unat n" using assms by unat_arith
  have "(unat h + unat sz) mod unat n = unat h + unat sz - unat n"
    using 3 4 by (simp add: mod_if le_mod_geq)
  then show "unat ((0 + (sz - (n - h))) mod n) = (unat h + unat sz) mod unat n"
    using 1 2 by (simp add: unat_mod)
  show "unat (n - h) = unat n - unat h" using assms by unat_arith
  show "unat (sz - (n - h)) = unat sz - (unat n - unat h)" using assms by unat_arith
qed

lemma plain_head:
  fixes n h c sz :: "32 word"
  assumes "h < n" "\<not> n - h < sz"
  shows "unat ((h + (sz - 0)) mod n) = (unat h + unat sz) mod unat n"
proof -
  have "unat (h + sz) = unat h + unat sz" using assms by unat_arith
  then show ?thesis by (simp add: unat_mod)
qed

lemma count_add:
  fixes n c sz :: "32 word"
  assumes "c \<le> n" "sz \<le> n - c"
  shows "unat (c + sz) = unat c + unat sz"
  using assms by unat_arith


lemma write_lw_rejected:
  assumes "sz > buffer_size s - count s"
  shows "write_lw ptr sz s = (False, s)"
  using assms by (simp add: write_lw_def)

lemma write_lw_split:
  assumes "\<not> sz > buffer_size s - count s" "buffer_size s - head s < sz"
  shows "write_lw ptr sz s =
     (True, s\<lparr>buffer := memcpy (memcpy (buffer s) (unat (head s)) ptr (unat (buffer_size s - head s)))
                    0 (drop (unat (buffer_size s - head s)) ptr)
                    (unat (sz - (buffer_size s - head s))),
               head := (0 + (sz - (buffer_size s - head s))) mod buffer_size s,
               count := count s + sz\<rparr>)"
  using assms by (simp add: write_lw_def Let_def)

lemma write_lw_plain:
  assumes "\<not> sz > buffer_size s - count s" "\<not> buffer_size s - head s < sz"
  shows "write_lw ptr sz s =
     (True, s\<lparr>buffer := memcpy (buffer s) (unat (head s)) ptr (unat sz),
               head := (head s + (sz - 0)) mod buffer_size s,
               count := count s + sz\<rparr>)"
  using assms by (simp add: write_lw_def Let_def)

lemma write_lw_fits:
  fixes s :: "'a log_writer_scheme"
  assumes inv: "ring_inv s" and fit: "\<not> sz > buffer_size s - count s"
  shows "unat (count s) + unat sz \<le> unat (buffer_size s)"
proof -
  have "count s \<le> buffer_size s" using inv by (simp add: ring_inv_def)
  moreover have "sz \<le> buffer_size s - count s" using fit by simp
  ultimately show ?thesis by (rule fits_nat)
qed

lemma write_lw_nat:
  fixes s :: "'a log_writer_scheme" and ptr :: "byte list" and sz :: size_t
  assumes inv: "ring_inv s" and fit: "\<not> sz > buffer_size s - count s"
  defines "s' \<equiv> snd (write_lw ptr sz s)"
  defines "n \<equiv> unat (buffer_size s)" and "h \<equiv> unat (head s)" and "k \<equiv> unat sz"
  shows "fst (write_lw ptr sz s)"
    and "buffer s' = (if k > n - h
                      then memcpy (memcpy (buffer s) h ptr (n - h)) 0 (drop (n - h) ptr) (k - (n - h))
                      else memcpy (buffer s) h ptr k)"
    and "unat (head s') = (h + k) mod n"
    and "unat (count s') = unat (count s) + k"
    and "buffer_size s' = buffer_size s"
proof -
  have hn: "head s < buffer_size s" and cn: "count s \<le> buffer_size s"
    using inv by (simp_all add: ring_inv_def)
  have fit': "sz \<le> buffer_size s - count s" using fit by simp
  show "fst (write_lw ptr sz s)" using fit by (simp add: write_lw_def Let_def split: prod.splits)
  show "buffer_size s' = buffer_size s"
    using fit by (simp add: s'_def write_lw_def Let_def split: prod.splits)
  show "unat (count s') = unat (count s) + k"
    using fit count_add [OF cn fit'] by (simp add: s'_def k_def write_lw_def Let_def split: prod.splits)
  show "unat (head s') = (h + k) mod n"
  proof (cases "buffer_size s - head s < sz")
    case True
    show ?thesis unfolding s'_def h_def k_def n_def write_lw_split [OF fit True]
      using split_head(1) [OF hn cn fit' True] by simp
  next
    case False
    show ?thesis unfolding s'_def h_def k_def n_def write_lw_plain [OF fit False]
      using plain_head [OF hn False] by simp
  qed
  show "buffer s' = (if k > n - h
                      then memcpy (memcpy (buffer s) h ptr (n - h)) 0 (drop (n - h) ptr) (k - (n - h))
                      else memcpy (buffer s) h ptr k)"
  proof (cases "buffer_size s - head s < sz")
    case True
    then have "n - h < k" unfolding n_def h_def k_def using split_test [OF hn] by simp
    then show ?thesis unfolding s'_def write_lw_split [OF fit True]
      using split_head(2,3) [OF hn cn fit' True] by (simp add: n_def h_def k_def)
  next
    case False
    then have "\<not> n - h < k" unfolding n_def h_def k_def using split_test [OF hn] by simp
    then show ?thesis unfolding s'_def write_lw_plain [OF fit False]
      by (simp add: n_def h_def k_def)
  qed
qed


lemma length_memcpy:
  assumes "off + k \<le> length buf" "k \<le> length src"
  shows "length (memcpy buf off src k) = length buf"
  using assms by (simp add: memcpy_def)

lemma mod_ring:
  fixes h k n :: nat
  assumes "h < n" "k \<le> n"
  shows "(h + k) mod n = (if h + k < n then h + k else h + k - n)"
  using assms by (simp add: mod_if le_mod_geq)

lemma write_lw_ring_inv:
  fixes s :: "'a log_writer_scheme"
  assumes inv: "ring_inv s" and len: "unat sz \<le> length ptr"
  shows "ring_inv (snd (write_lw ptr sz s))"
proof (cases "sz > buffer_size s - count s")
  case True
  then show ?thesis using inv by (simp add: write_lw_rejected)
next
  case False
  let ?s' = "snd (write_lw ptr sz s)"
  let ?n = "unat (buffer_size s)" and ?h = "unat (head s)" and ?k = "unat sz"
  note w = write_lw_nat [OF inv False, of ptr] write_lw_fits [OF inv False]
  note i = ring_inv_nat [OF inv]
  have kn: "?k \<le> ?n" using w(6) by simp
  have "length (buffer ?s') = ?n"
  proof (cases "?k > ?n - ?h")
    case True
    have "length (memcpy (buffer s) ?h ptr (?n - ?h)) = ?n"
      using i True len by (simp add: length_memcpy)
    then have "length (memcpy (memcpy (buffer s) ?h ptr (?n - ?h)) 0 (drop (?n - ?h) ptr) (?k - (?n - ?h))) = ?n"
      using i True len kn by (simp add: length_memcpy)
    then show ?thesis using True w(2) by simp
  next
    case False
    then show ?thesis using w(2) i len by (simp add: length_memcpy)
  qed
  moreover have "unat (head ?s') < ?n" using w(3) i(1) by simp
  moreover have "unat (count ?s') \<le> ?n" using w(4,6) by simp
  ultimately show ?thesis
    by (simp add: ring_inv_def w(5) word_less_nat_alt word_le_nat_alt)
qed

lemma write_lw_read_pos:
  fixes s :: "'a log_writer_scheme"
  assumes inv: "ring_inv s" and fit: "\<not> sz > buffer_size s - count s"
    and len: "unat sz \<le> length ptr"
  shows "read_pos (snd (write_lw ptr sz s)) = read_pos s"
proof -
  let ?s' = "snd (write_lw ptr sz s)"
  note w = write_lw_nat [OF inv fit, of ptr] write_lw_fits [OF inv fit]
  note i = ring_inv_nat [OF inv]
  have inv': "ring_inv ?s'" by (rule write_lw_ring_inv [OF inv len])
  have kn: "unat sz \<le> unat (buffer_size s)" using w(6) by simp
  show ?thesis
    unfolding read_pos_cases [OF inv] read_pos_cases [OF inv'] w(3,4,5) mod_ring [OF i(1) kn]
    using i w(6) by (simp split: if_splits)
qed

lemma write_lw_unread:
  fixes s :: "'a log_writer_scheme"
  assumes inv: "ring_inv s" and fit: "\<not> sz > buffer_size s - count s"
    and len: "unat sz \<le> length ptr"
  shows "unread (snd (write_lw ptr sz s)) = unread s @ take (unat sz) ptr"
proof -
  let ?s' = "snd (write_lw ptr sz s)"
  note w = write_lw_nat [OF inv fit, of ptr] write_lw_fits [OF inv fit]
  note i = ring_inv_nat [OF inv]
  have "unread ?s' = take (unat (count s) + unat sz) (rotate (read_pos s) (buffer ?s'))"
    by (simp add: unread_def write_lw_read_pos [OF inv fit len] w(4))
  also have "\<dots> = take (unat (count s)) (rotate (read_pos s) (buffer s)) @ take (unat sz) ptr"
    unfolding w(2) read_pos_cases [OF inv]
    by (rule ring_store [OF i(3) i(1) w(6) len])
  finally show ?thesis by (simp add: unread_def)
qed


lemma get_read_ptr_wrapped:
  fixes s :: "'a log_writer_scheme"
  assumes inv: "ring_inv s" and fit: "fits_int s" and w: "head s < count s"
  shows "get_read_ptr s = (head s - count s + buffer_size s,
                           buffer_size s - (head s - count s + buffer_size s), True)"
    and "unat (head s - count s + buffer_size s) = read_pos s"
    and "unat (buffer_size s - (head s - count s + buffer_size s)) = unat (buffer_size s) - read_pos s"
    and "unat (buffer_size s) - read_pos s = unat (count s) - unat (head s)"
proof -
  note i = ring_inv_nat [OF inv]
  have hn: "head s < buffer_size s" and cn: "count s \<le> buffer_size s"
    using inv by (simp_all add: ring_inv_def)
  have "unat (head s) < 2 ^ 31" "unat (count s) < 2 ^ 31"
    using i fit by (simp_all add: fits_int_def)
  then have "sint (head s - count s) < 0" using w by (simp add: sint_diff_neg_iff)
  then show "get_read_ptr s = (head s - count s + buffer_size s,
                           buffer_size s - (head s - count s + buffer_size s), True)"
    by (simp add: get_read_ptr_def Let_def)
  have lt: "unat (head s) < unat (count s)" using w by (simp add: word_less_nat_alt)
  have rp: "read_pos s = unat (head s) + unat (buffer_size s) - unat (count s)"
    using lt by (simp add: read_pos_cases [OF inv])
  have "unat (head s - count s + buffer_size s) = unat (head s) + unat (buffer_size s) - unat (count s)"
    using hn cn w by unat_arith
  then show a: "unat (head s - count s + buffer_size s) = read_pos s" using rp by simp
  have "unat (buffer_size s - (head s - count s + buffer_size s)) = unat (count s) - unat (head s)"
    using hn cn w by unat_arith
  moreover show "unat (buffer_size s) - read_pos s = unat (count s) - unat (head s)"
    using rp lt i by simp
  ultimately show "unat (buffer_size s - (head s - count s + buffer_size s)) = unat (buffer_size s) - read_pos s"
    by simp
qed

lemma get_read_ptr_plain:
  fixes s :: "'a log_writer_scheme"
  assumes inv: "ring_inv s" and fit: "fits_int s" and w: "\<not> head s < count s"
  shows "get_read_ptr s = (head s - count s, count s, False)"
    and "unat (head s - count s) = read_pos s"
    and "read_pos s + unat (count s) = unat (head s)"
proof -
  note i = ring_inv_nat [OF inv]
  have "unat (head s) < 2 ^ 31" "unat (count s) < 2 ^ 31"
    using i fit by (simp_all add: fits_int_def)
  then have "\<not> sint (head s - count s) < 0" using w by (simp add: sint_diff_neg_iff)
  then show "get_read_ptr s = (head s - count s, count s, False)"
    by (simp add: get_read_ptr_def Let_def)
  have le: "unat (count s) \<le> unat (head s)" using w by (simp add: word_less_nat_alt)
  have rp: "read_pos s = unat (head s) - unat (count s)"
    using le by (simp add: read_pos_cases [OF inv])
  have "unat (head s - count s) = unat (head s) - unat (count s)"
    using w by unat_arith
  then show "unat (head s - count s) = read_pos s" using rp by simp
  show "read_pos s + unat (count s) = unat (head s)" using rp le by simp
qed

text \<open>A run that starts at \<open>read_pos\<close> and stays inside the array is a prefix of the unread bytes.\<close>

lemma prefix_of_unread:
  fixes s :: "'a log_writer_scheme"
  assumes inv: "ring_inv s" and a: "a \<le> unat (count s)" "read_pos s + a \<le> unat (buffer_size s)"
  shows "take a (drop (read_pos s) (buffer s)) = take a (unread s)"
proof -
  note i = ring_inv_nat [OF inv]
  have "rotate (read_pos s) (buffer s) = drop (read_pos s) (buffer s) @ take (read_pos s) (buffer s)"
    using read_pos_less [OF inv] i(3) by (simp add: rotate_drop_take)
  moreover have "a \<le> unat (buffer_size s) - read_pos s" using a(2) by linarith
  ultimately show ?thesis using a(1) i(3) by (simp add: unread_def min_def)
qed


lemma drop_unread:
  assumes "m \<le> c" "c \<le> length X"
  shows "take (c - m) (rotate m X) = drop m (take c X)"
proof (cases "m < length X")
  case True
  then have "rotate m X = drop m X @ take m X" by (simp add: rotate_drop_take)
  moreover have "c - m \<le> length X - m" using assms by linarith
  ultimately show ?thesis by (simp add: drop_take)
next
  case False
  then have "c = m" using assms by linarith
  then show ?thesis by simp
qed

lemma read_pos_advance:
  fixes h c m n :: nat
  assumes "h < n" "c \<le> n" "m \<le> c"
  shows "(if c - m \<le> h then h - (c - m) else h + n - (c - m))
         = ((if c \<le> h then h - c else h + n - c) + m) mod n"
proof -
  consider (a) "c \<le> h" | (b) "h < c" "c - m \<le> h" | (c) "h < c" "h < c - m"
    by linarith
  then show ?thesis
  proof cases
    case a
    then have "h - c + m < n" using assms by linarith
    then have "(h - c + m) mod n = h - c + m" by (rule mod_less)
    moreover have "c - m \<le> h" using a by linarith
    moreover have "h - (c - m) = h - c + m" using a assms by linarith
    ultimately show ?thesis using a by simp
  next
    case b
    have 1: "n \<le> h + n - c + m" using b assms by linarith
    have 2: "h + n - c + m - n < n" using b assms by linarith
    have "(h + n - c + m) mod n = (h + n - c + m - n) mod n" using 1 by (rule le_mod_geq)
    also have "\<dots> = h + n - c + m - n" using 2 by (rule mod_less)
    also have "\<dots> = h - (c - m)" using b assms by linarith
    finally show ?thesis using b by simp
  next
    case c
    then have "h + n - c + m < n" using assms by linarith
    then have "(h + n - c + m) mod n = h + n - c + m" by (rule mod_less)
    moreover have "h + n - (c - m) = h + n - c + m" using c assms by linarith
    moreover have "\<not> c - m \<le> h" "\<not> c \<le> h" using c by linarith+
    ultimately show ?thesis by simp
  qed
qed

lemma mark_read_nat:
  fixes s :: "'a log_writer_scheme"
  assumes inv: "ring_inv s" and le: "m \<le> count s"
  shows "unat (count (mark_read m s)) = unat (count s) - unat m"
    and "unat m \<le> unat (count s)"
    and "ring_inv (mark_read m s)"
proof -
  show 1: "unat (count (mark_read m s)) = unat (count s) - unat m"
    using le by (simp add: mark_read_def) unat_arith
  show "unat m \<le> unat (count s)" using le by (simp add: word_le_nat_alt)
  have "unat (count (mark_read m s)) \<le> unat (buffer_size s)"
    using 1 ring_inv_nat(2) [OF inv] by simp
  then show "ring_inv (mark_read m s)"
    using inv by (simp add: ring_inv_def mark_read_def word_le_nat_alt)
qed

lemma mark_read_read_pos:
  fixes s :: "'a log_writer_scheme"
  assumes inv: "ring_inv s" and le: "m \<le> count s"
  shows "read_pos (mark_read m s) = (read_pos s + unat m) mod unat (buffer_size s)"
proof -
  note i = ring_inv_nat [OF inv]
  note m = mark_read_nat [OF inv le]
  have f: "head (mark_read m s) = head s" "buffer_size (mark_read m s) = buffer_size s"
    by (simp_all add: mark_read_def)
  have mn: "unat m \<le> unat (buffer_size s)" using m(2) i(2) by simp
  show ?thesis
    unfolding read_pos_cases [OF m(3)] m(1) f read_pos_cases [OF inv]
    by (rule read_pos_advance [OF i(1,2) m(2)])
qed

lemma mark_read_unread:
  fixes s :: "'a log_writer_scheme"
  assumes inv: "ring_inv s" and le: "m \<le> count s"
  shows "unread (mark_read m s) = drop (unat m) (unread s)"
proof -
  note i = ring_inv_nat [OF inv]
  note m = mark_read_nat [OF inv le]
  let ?X = "rotate (read_pos s) (buffer s)"
  have b: "buffer (mark_read m s) = buffer s" by (simp add: mark_read_def)
  have "rotate (read_pos (mark_read m s)) (buffer s) = rotate (read_pos s + unat m) (buffer s)"
    unfolding mark_read_read_pos [OF inv le] i(3) [symmetric] by (rule rotate_conv_mod [symmetric])
  also have "\<dots> = rotate (unat m) ?X" by (simp add: rotate_rotate add.commute)
  finally have "unread (mark_read m s) = take (unat (count s) - unat m) (rotate (unat m) ?X)"
    by (simp add: unread_def m(1) b)
  also have "\<dots> = drop (unat m) (take (unat (count s)) ?X)"
    using m(2) i(2,3) by (intro drop_unread) simp_all
  finally show ?thesis by (simp add: unread_def)
qed

section \<open>The buffer size never changes\<close>

lemma write_lw_buffer_size:
  "buffer_size (snd (write_lw ptr sz s)) = buffer_size s"
  by (simp add: write_lw_def Let_def split: prod.splits)

lemma finish_call_buffer_size:
  "buffer_size (finish_call res d span av part s) = buffer_size s"
  by (simp add: finish_call_def end_iter_def leave_loop_def close_log_def sink_write_def
      mark_read_def Let_def)

lemma step_buffer_size:
  assumes "step mwc e s = Some s'"
  shows "buffer_size s' = buffer_size s"
proof (cases e)
  case (Append ptr sz)
  then show ?thesis using assms write_lw_buffer_size [of ptr sz s]
    by (auto split: if_splits prod.splits)
next
  case (Finish res)
  then show ?thesis using assms
    by (auto simp: finish_iter_def finish_call_buffer_size split: wpc.splits if_splits)
next
  case Call
  then show ?thesis using assms by (auto split: wpc.splits if_splits)
qed (use assms in \<open>auto simp: start_log_def stop_log_def thread_stop_def wake_def begin_iter_def
      split: if_splits prod.splits\<close>)

section \<open>Overflow, capacity, the readable run and the bounds\<close>

text \<open>
  C2: for every state of the object and every \<open>size\<close> greater than
  \<open>capacity - stored_count\<close> (the \<^verbatim>\<open>size_t\<close> difference \<^verbatim>\<open>write\<close> computes), \<^verbatim>\<open>write\<close>
  returns false and returns the object as it was: the array, \<open>head\<close>, \<open>count\<close> and
  every other member are unchanged, so nothing of the message is stored.
\<close>

theorem write_overflow_rejected:
  "sz > buffer_size s - count s \<Longrightarrow> write_lw ptr sz s = (False, s)"
  by (rule write_lw_rejected)

theorem write_overflow_rejected_witness:
  "(200 :: size_t) > buffer_size full900 - count full900 \<and>
   write_lw (replicate 200 7) 200 full900 = (False, full900)"
  using write_overflow_rejected [of full900 200 "replicate 200 7"]
  by (simp add: full900_def)

text \<open>
  C9, as the spec states it: the capacity exceeds \<open>min_chunk + 300\<close>. With a chunk of 300
  and a requested size of 0 the constructor stores exactly 600, which does not exceed
  \<open>300 + 300\<close>.
\<close>

theorem capacity_exceeds_counterexample:
  "\<not> buffer_size (LogWriter 300 0) > 300 + 300"
  by (simp add: LogWriter_def)

text \<open>
  C9, amended: when \<open>min_chunk + 300\<close> fits a \<^verbatim>\<open>size_t\<close>, the capacity is the larger
  of the requested size and \<open>min_chunk + 300\<close>; it is at least \<open>min_chunk + 300\<close>,
  greater than \<open>min_chunk\<close> and at least the requested size, and no event changes it
  afterwards.
\<close>

theorem constructor_capacity:
  assumes "unat mwc + 300 < 2 ^ 32"
  shows "buffer_size (LogWriter mwc requested) = max requested (mwc + 300) \<and>
         mwc + 300 \<le> buffer_size (LogWriter mwc requested) \<and>
         mwc < buffer_size (LogWriter mwc requested) \<and>
         requested \<le> buffer_size (LogWriter mwc requested) \<and>
         (\<forall>e s s'. step mwc e s = Some s' \<longrightarrow> buffer_size s' = buffer_size s)"
proof -
  have "unat mwc + unat (300 :: size_t) < 2 ^ LENGTH(32)" using assms by simp
  then have "unat (mwc + 300) = unat mwc + unat (300 :: size_t)"
    by (rule iffD1 [OF unat_add_lem])
  then have "mwc < mwc + 300" by (simp add: word_less_nat_alt)
  moreover have "mwc + 300 \<le> max requested (mwc + 300)" by (rule max.cobounded2)
  ultimately have "mwc < max requested (mwc + 300)" by (rule less_le_trans)
  then show ?thesis by (auto simp: LogWriter_def step_buffer_size)
qed

theorem constructor_capacity_witness:
  "unat (300 :: size_t) + 300 < 2 ^ 32 \<and> buffer_size (LogWriter 300 1024) = 1024 \<and>
   buffer_size (LogWriter 300 0) = 600"
  using constructor_capacity [of 300 1024] constructor_capacity [of 300 0]
  by simp

lemma wrapped_iff:
  fixes s :: "'a log_writer_scheme"
  assumes inv: "ring_inv s"
  shows "head s < count s \<longleftrightarrow>
         count s \<noteq> 0 \<and> unat (buffer_size s) \<le> read_pos s + unat (count s)"
proof -
  note i = ring_inv_nat [OF inv]
  have z: "count s \<noteq> 0 \<longleftrightarrow> unat (count s) \<noteq> 0" by (simp add: unat_eq_0)
  show ?thesis
    unfolding read_pos_cases [OF inv] word_less_nat_alt z using i
    by (auto split: if_splits)
qed

text \<open>
  C3, as the spec states it: when \<open>read_pos + stored_count\<close> does not exceed the
  capacity, the run is the whole unread region and \<open>is_partial\<close> is false. With five
  unread bytes at the end of a 600-byte array (\<open>head = 0\<close>) the sum is exactly 600, and
  \<^verbatim>\<open>get_read_ptr\<close> sets \<^verbatim>\<open>*is_part\<close> to true.
\<close>

theorem readable_run_counterexample:
  "\<not> unat (buffer_size drained595) < read_pos drained595 + unat (count drained595) \<and>
   get_read_ptr drained595 = (595, 5, True)"
  by (simp add: drained595_def read_pos_def get_read_ptr_def)

text \<open>
  C3, amended: in a state within the bounds of the data model whose buffer size fits
  an \<^verbatim>\<open>int\<close>, the run \<^verbatim>\<open>get_read_ptr\<close> returns starts at
  \<open>read_pos = (head - count) mod buffer_size\<close>. \<^verbatim>\<open>*is_part\<close> is true exactly when
  there are unread bytes and \<open>read_pos + count\<close> reaches or exceeds the buffer size,
  which is when \<open>head < count\<close>; the run then is the segment from \<open>read_pos\<close> to the
  end of the array. Otherwise the run is the whole unread region, of length \<open>count\<close>.
  In both cases the run lies inside the array and holds the first \<open>available\<close> unread
  bytes.
\<close>

theorem readable_run:
  fixes s :: "'a log_writer_scheme"
  assumes "ring_inv s" and "fits_int s"
  shows "case get_read_ptr s of (read_ptr, available, is_part) \<Rightarrow>
           unat read_ptr = read_pos s \<and>
           is_part = (count s \<noteq> 0 \<and> unat (buffer_size s) \<le> read_pos s + unat (count s)) \<and>
           is_part = (head s < count s) \<and>
           unat available =
             (if is_part then unat (buffer_size s) - read_pos s else unat (count s)) \<and>
           unat available \<le> unat (count s) \<and>
           read_pos s + unat available \<le> unat (buffer_size s) \<and>
           take (unat available) (drop (unat read_ptr) (buffer s)) =
             take (unat available) (unread s)"
proof (cases "head s < count s")
  case True
  note g = get_read_ptr_wrapped [OF assms True]
  have a: "unat (buffer_size s) - read_pos s \<le> unat (count s)" using g(4) by simp
  have b: "read_pos s + (unat (buffer_size s) - read_pos s) \<le> unat (buffer_size s)"
    using read_pos_less [OF assms(1)] by simp
  show ?thesis
    unfolding g(1) using True wrapped_iff [OF assms(1)] g(2,3) a b
      prefix_of_unread [OF assms(1) a b]
    by simp
next
  case False
  note g = get_read_ptr_plain [OF assms False]
  note i = ring_inv_nat [OF assms(1)]
  have b: "read_pos s + unat (count s) \<le> unat (buffer_size s)" using g(3) i(1) by simp
  show ?thesis
    unfolding g(1) using False wrapped_iff [OF assms(1)] g(2) b
      prefix_of_unread [OF assms(1) order_refl b]
    by simp
qed

theorem readable_run_witness:
  "ring_inv ring6 \<and> fits_int ring6 \<and> get_read_ptr ring6 = (4, 2, True) \<and>
   read_pos ring6 = 4 \<and> unread ring6 = [5, 6, 1]"
  using readable_run [of ring6]
  by (simp add: ring6_def ring_inv_def fits_int_def get_read_ptr_def read_pos_def unread_def
      rotate_drop_take)

lemma read_pos_end:
  fixes s :: "'a log_writer_scheme"
  assumes inv: "ring_inv s"
  shows "(read_pos s + unat (count s)) mod unat (buffer_size s) = unat (head s)"
proof (cases "unat (count s) \<le> unat (head s)")
  case True
  then have "read_pos s + unat (count s) = unat (head s)" by (simp add: read_pos_cases [OF inv])
  then show ?thesis using ring_inv_nat(1) [OF inv] by simp
next
  case False
  then have "read_pos s + unat (count s) = unat (head s) + unat (buffer_size s)"
    using ring_inv_nat(2) [OF inv] by (simp add: read_pos_cases [OF inv])
  then show ?thesis using ring_inv_nat(1) [OF inv] by simp
qed

lemma unread_empty:
  fixes s :: "'a log_writer_scheme"
  shows "count s = 0 \<Longrightarrow> unread s = []"
  by (simp add: unread_def)

lemma ring_inv_reset:
  fixes s :: "'a log_writer_scheme"
  assumes "ring_inv s" "buffer s' = buffer s" "buffer_size s' = buffer_size s" "head s' = 0" "count s' = 0"
  shows "ring_inv s'"
proof -
  have "0 < unat (buffer_size s)" using ring_inv_nat(1) [OF assms(1)] by simp
  then show ?thesis using assms by (simp add: ring_inv_def word_less_nat_alt)
qed

lemma start_log_ring:
  fixes s :: "'a log_writer_scheme"
  assumes "ring_inv s"
  shows "ring_inv (start_log opened s)" and "0 \<le> opened \<Longrightarrow> unread (start_log opened s) = []"
proof -
  show "ring_inv (start_log opened s)"
  proof (cases "opened < 0")
    case True
    then show ?thesis using assms by (simp add: start_log_def ring_inv_def)
  next
    case False
    then show ?thesis by (intro ring_inv_reset [OF assms]) (simp_all add: start_log_def)
  qed
  show "0 \<le> opened \<Longrightarrow> unread (start_log opened s) = []"
    by (rule unread_empty) (simp add: start_log_def)
qed

lemma close_log_ring:
  assumes "ring_inv s"
  shows "ring_inv (close_log s)" and "unread (close_log s) = []"
proof -
  show "ring_inv (close_log s)"
    by (intro ring_inv_reset [OF assms]) (simp_all add: close_log_def Let_def)
  show "unread (close_log s) = []"
    by (rule unread_empty) (simp add: close_log_def Let_def)
qed

text \<open>
  C8: in a state within the bounds \<open>0 \<le> head < buffer_size\<close> and
  \<open>0 \<le> count \<le> buffer_size\<close>, the circular range that starts at \<open>read_pos\<close> and
  holds \<open>count\<close> bytes ends at \<open>head\<close>, and every operation on the ring keeps the
  bounds and the range: \<^verbatim>\<open>write\<close> (accepted exactly when \<open>size\<close> is at most the free
  space, and then the unread bytes are followed by the message; otherwise they stay as
  they are), \<^verbatim>\<open>mark_read\<close> of at most \<open>count\<close> bytes (it drops that many unread bytes
  from the front and leaves \<open>head\<close> alone), and the resets of \<^verbatim>\<open>start_log\<close> and of the
  end of a session in \<^verbatim>\<open>run\<close> (no unread bytes are left).
\<close>

theorem ring_invariants_preserved:
  fixes s :: worker
  assumes "ring_inv s"
  shows "unat (head s) < unat (buffer_size s) \<and> unat (count s) \<le> unat (buffer_size s) \<and>
         (read_pos s + unat (count s)) mod unat (buffer_size s) = unat (head s) \<and>
         (unat sz \<le> length ptr \<longrightarrow>
            ring_inv (snd (write_lw ptr sz s)) \<and>
            fst (write_lw ptr sz s) = (sz \<le> buffer_size s - count s) \<and>
            unread (snd (write_lw ptr sz s)) =
              (if sz \<le> buffer_size s - count s then unread s @ take (unat sz) ptr else unread s)) \<and>
         (n \<le> count s \<longrightarrow>
            ring_inv (mark_read n s) \<and> head (mark_read n s) = head s \<and>
            unread (mark_read n s) = drop (unat n) (unread s)) \<and>
         ring_inv (start_log opened s) \<and>
         (0 \<le> opened \<longrightarrow> unread (start_log opened s) = []) \<and>
         ring_inv (close_log s) \<and> unread (close_log s) = []"
proof -
  have w: "ring_inv (snd (write_lw ptr sz s)) \<and>
           fst (write_lw ptr sz s) = (sz \<le> buffer_size s - count s) \<and>
           unread (snd (write_lw ptr sz s)) =
             (if sz \<le> buffer_size s - count s then unread s @ take (unat sz) ptr else unread s)"
    if len: "unat sz \<le> length ptr"
  proof (cases "sz > buffer_size s - count s")
    case True
    then show ?thesis using assms by (simp add: write_lw_rejected)
  next
    case False
    then show ?thesis
      using write_lw_ring_inv [OF assms len] write_lw_nat(1) [OF assms False, of ptr]
        write_lw_unread [OF assms False len]
      by simp
  qed
  have m: "ring_inv (mark_read n s) \<and> head (mark_read n s) = head s \<and>
           unread (mark_read n s) = drop (unat n) (unread s)" if "n \<le> count s"
    using mark_read_nat(3) [OF assms that] mark_read_unread [OF assms that]
    by (simp add: mark_read_def)
  show ?thesis
    using ring_inv_nat(1,2) [OF assms] read_pos_end [OF assms] w m
      start_log_ring [OF assms] close_log_ring [OF assms]
    by simp
qed

theorem ring_invariants_preserved_witness:
  "ring_inv (attach ring6 Drain 0) \<and>
   unread (attach ring6 Drain 0) = [5, 6, 1] \<and>
   unread (snd (write_lw [7, 8] 2 (attach ring6 Drain 0))) = [5, 6, 1, 7, 8] \<and>
   unread (mark_read 2 (attach ring6 Drain 0)) = [1] \<and>
   unread (start_log 4 (attach ring6 Drain 0)) = [] \<and>
   unread (close_log (attach ring6 Drain 0)) = []"
  using ring_invariants_preserved [of "attach ring6 Drain 0" 2 "[7, 8]" 2 4]
  by (simp add: ring6_def attach_def ring_inv_def unread_def read_pos_def rotate_drop_take
      write_lw_def memcpy_def mark_read_def start_log_def close_log_def)

section \<open>The passes of the worker\<close>

lemma exec_append:
  "exec mwc (xs @ ys) s = (case exec mwc xs s of None \<Rightarrow> None | Some s' \<Rightarrow> exec mwc ys s')"
  by (induction xs arbitrary: s) (auto split: option.splits)

text \<open>Outside the drain loop, with no session wanted, nothing moves the worker.\<close>

lemma idle_step:
  assumes "step mwc e s = Some s'" "\<not> restarts e"
    and "pc s = Idle" "\<not> should_run s" "\<not> exit_thread s"
  shows "pc s' = Idle \<and> \<not> should_run s' \<and> \<not> exit_thread s' \<and> trace s' = trace s \<and>
         fd s' = fd s \<and> running s' = running s"
proof (cases e)
  case (Append ptr sz)
  then show ?thesis using assms
    by (auto simp: write_lw_def Let_def split: if_splits prod.splits)
qed (use assms in \<open>auto simp: stop_log_def wake_def begin_iter_def split: if_splits\<close>)

lemma idle_exec:
  assumes "exec mwc evs s = Some s'" "\<forall>e \<in> set evs. \<not> restarts e"
    and "pc s = Idle" "\<not> should_run s" "\<not> exit_thread s"
  shows "pc s' = Idle \<and> \<not> should_run s' \<and> \<not> exit_thread s' \<and> trace s' = trace s \<and>
         fd s' = fd s \<and> running s' = running s"
  using assms
proof (induction evs arbitrary: s)
  case Nil
  then show ?case by simp
next
  case (Cons e evs)
  from Cons.prems(1) obtain s1 where s1: "step mwc e s = Some s1" "exec mwc evs s1 = Some s'"
    by (auto split: option.splits)
  have "\<not> restarts e" using Cons.prems(2) by simp
  from idle_step [OF s1(1) this Cons.prems(3-5)] Cons.IH [OF s1(2)] Cons.prems(2)
  show ?case by simp
qed



lemma get_read_ptr_facts:
  fixes s :: "'a log_writer_scheme"
  assumes "ring_inv s" and "fits_int s" and g: "get_read_ptr s = (read_ptr, available, is_part)"
  shows "unat read_ptr = read_pos s"
    and "is_part = (head s < count s)"
    and "unat available = (if is_part then unat (buffer_size s) - read_pos s else unat (count s))"
    and "unat available \<le> unat (count s)"
    and "read_pos s + unat available \<le> unat (buffer_size s)"
    and "take (unat available) (drop (unat read_ptr) (buffer s)) = take (unat available) (unread s)"
proof -
  have "unat read_ptr = read_pos s \<and> is_part = (head s < count s) \<and>
        unat available = (if is_part then unat (buffer_size s) - read_pos s else unat (count s)) \<and>
        unat available \<le> unat (count s) \<and> read_pos s + unat available \<le> unat (buffer_size s) \<and>
        take (unat available) (drop (unat read_ptr) (buffer s)) = take (unat available) (unread s)"
  proof (cases "head s < count s")
    case True
    note w = get_read_ptr_wrapped [OF assms(1,2) True]
    have a: "unat (buffer_size s) - read_pos s \<le> unat (count s)" using w(4) by simp
    have b: "read_pos s + (unat (buffer_size s) - read_pos s) \<le> unat (buffer_size s)"
      using read_pos_less [OF assms(1)] by simp
    show ?thesis
      using g True w(2,3) a b prefix_of_unread [OF assms(1) a b] unfolding w(1) by auto
  next
    case False
    note p = get_read_ptr_plain [OF assms(1,2) False]
    note i = ring_inv_nat [OF assms(1)]
    have b: "read_pos s + unat (count s) \<le> unat (buffer_size s)" using p(3) i(1) by simp
    show ?thesis
      using g False p(2) b prefix_of_unread [OF assms(1) order_refl b] unfolding p(1) by auto
  qed
  then show "unat read_ptr = read_pos s"
    and "is_part = (head s < count s)"
    and "unat available = (if is_part then unat (buffer_size s) - read_pos s else unat (count s))"
    and "unat available \<le> unat (count s)"
    and "read_pos s + unat available \<le> unat (buffer_size s)"
    and "take (unat available) (drop (unat read_ptr) (buffer s)) = take (unat available) (unread s)"
    by blast+
qed

lemma length_unread:
  fixes s :: "'a log_writer_scheme"
  assumes "ring_inv s"
  shows "length (unread s) = unat (count s)"
  using ring_inv_nat(2,3) [OF assms] by (simp add: unread_def)

lemma small_nonneg:
  fixes a :: "32 word"
  assumes "unat a < 2 ^ 31"
  shows "\<not> sint a < 0"
  using sint_small [OF assms] by simp

lemma finish_in_flight:
  assumes "in_flight s = Some (d, span, available, is_part)"
    and "sint res < 0 \<or> res \<le> available"
  shows "step mwc (Finish res) s = Some (finish_call res d span available is_part s)"
  using assms by (auto simp: in_flight_def finish_iter_def split: wpc.splits)

lemma finish_call_done:
  assumes "available = 0 \<or> \<not> sint res < 0"
  shows "finish_call res d span available is_part s =
     (if 0 < available
      then end_iter res available is_part
             ((mark_read res (sink_write d span res s))
                \<lparr>total_written := total_written s + res\<rparr>)
      else end_iter 0 available is_part s)"
  using assms
  by (auto simp: finish_call_def Let_def mark_read_def sink_write_def)

lemma delivered_append: "delivered (xs @ ys) = delivered xs @ delivered ys"
  by (simp add: delivered_def)

lemma delivered_calls_of:
  "delivered (calls_of d span res available s) =
     (if 0 < available \<and> \<not> sint res < 0 then take (unat res) span else [])"
  by (auto simp: delivered_def calls_of_def)

lemma delivered_sink_calls:
  "delivered (sink_calls res read_ptr available s) =
     (if 0 < available \<and> \<not> sint res < 0
      then take (unat res) (take (unat available) (drop (unat read_ptr) (buffer s))) else [])"
  by (simp add: sink_calls_def delivered_calls_of)

lemma closing_call:
  fixes res :: cint and d :: int and span :: "byte list" and available :: size_t
    and is_part :: bool and s :: worker
  assumes ok: "available = 0 \<or> \<not> sint res < 0"
    and cl: "\<not> should_run s" "available = 0 \<or> res = available" "\<not> is_part"
  defines "s' \<equiv> finish_call res d span available is_part s"
  shows "\<not> running s'" "head s' = 0" "count s' = 0" "fd s' = (if 0 \<le> fd s then - 1 else fd s)"
    "pc s' = (if exit_thread s then Exited else Idle)" "\<not> should_run s'"
    "exit_thread s' = exit_thread s"
    "trace s' = trace s @ calls_of d span res available s @
                   (if 0 \<le> fd s then [SClose (fd s)] else [])"
  using ok cl unfolding s'_def finish_call_done [OF ok]
  by (auto simp: end_iter_def close_log_def leave_loop_def mark_read_def sink_write_def
      calls_of_def Let_def word_gt_0)

lemma continuing_call:
  fixes res :: cint and d :: int and span :: "byte list" and available :: size_t
    and is_part :: bool and s :: worker
  assumes ok: "available = 0 \<or> \<not> sint res < 0"
    and cl: "\<not> (\<not> should_run s \<and> (available = 0 \<or> res = available) \<and> \<not> is_part)"
  defines "s' \<equiv> finish_call res d span available is_part s"
  shows "pc s' = Drain" "trace s' = trace s @ calls_of d span res available s"
    "fd s' = fd s" "running s' = running s" "head s' = head s" "should_run s' = should_run s"
    "count s' = (if 0 < available then count s - res else count s)"
    "buffer s' = buffer s" "buffer_size s' = buffer_size s" "exit_thread s' = exit_thread s"
  using ok cl unfolding s'_def finish_call_done [OF ok]
  by (auto simp: end_iter_def mark_read_def sink_write_def calls_of_def Let_def word_gt_0)

lemma closing_pass:
  fixes res read_ptr :: cint and available :: size_t and is_part :: bool and s :: worker
  assumes ok: "available = 0 \<or> \<not> sint res < 0"
    and cl: "\<not> should_run s" "available = 0 \<or> res = available" "\<not> is_part"
  defines "s' \<equiv> finish_iter res read_ptr available is_part s"
  shows "\<not> running s'" "head s' = 0" "count s' = 0" "fd s' = (if 0 \<le> fd s then - 1 else fd s)"
    "pc s' = (if exit_thread s then Exited else Idle)" "\<not> should_run s'"
    "exit_thread s' = exit_thread s"
    "trace s' = trace s @ sink_calls res read_ptr available s @
                   (if 0 \<le> fd s then [SClose (fd s)] else [])"
  unfolding s'_def finish_iter_def sink_calls_def by (rule closing_call [OF ok cl])+

lemma continuing_pass:
  fixes res read_ptr :: cint and available :: size_t and is_part :: bool and s :: worker
  assumes ok: "available = 0 \<or> \<not> sint res < 0"
    and cl: "\<not> (\<not> should_run s \<and> (available = 0 \<or> res = available) \<and> \<not> is_part)"
  defines "s' \<equiv> finish_iter res read_ptr available is_part s"
  shows "pc s' = Drain" "trace s' = trace s @ sink_calls res read_ptr available s"
    "fd s' = fd s" "running s' = running s" "head s' = head s" "should_run s' = should_run s"
    "count s' = (if 0 < available then count s - res else count s)"
    "buffer s' = buffer s" "buffer_size s' = buffer_size s" "exit_thread s' = exit_thread s"
  unfolding s'_def finish_iter_def sink_calls_def by (rule continuing_call [OF ok cl])+

lemma finish_call_failed:
  assumes "0 < available" "sint res < 0"
  shows "finish_call res d span available is_part s =
           leave_loop ((sink_write d span res s)\<lparr>should_run := False\<rparr>)"
  using assms by (simp add: finish_call_def Let_def)

lemma failed_call:
  fixes res :: cint and d :: int and span :: "byte list" and available :: size_t
    and is_part :: bool and s :: worker
  assumes "0 < available" "sint res < 0"
  defines "s' \<equiv> finish_call res d span available is_part s"
  shows "\<not> should_run s'" "pc s' = (if exit_thread s then Exited else Idle)"
    "exit_thread s' = exit_thread s"
    "fd s' = fd s" "running s' = running s" "head s' = head s" "count s' = count s"
    "buffer s' = buffer s" "buffer_size s' = buffer_size s"
    "trace s' = trace s @ calls_of d span res available s"
    "accepted s' = accepted s"
  using assms(1)
  by (simp_all add: s'_def finish_call_failed [OF assms(1,2)] leave_loop_def sink_write_def
      calls_of_def Let_def)

section \<open>The scenario of the spec\<close>

lemma scenario_start_eq:
  assumes "mem \<noteq> []"
  shows "scenario_start mem =
     \<lparr>buffer = mem, buffer_size = 1024, head = 0, count = 0, total_written = 0,
      should_run = True, running = True, exit_thread = False, fd = 3,
      pc = Drain, poll_count = 0, trace = [], accepted = []\<rparr>"
  using assms
  by (simp add: scenario_start_def wake_def start_log_def init_lw_def attach_def LogWriter_def)

lemma scenario_parked:
  assumes "length mem = 1024" "200 \<le> length p1"
  shows "exec 300 [Append p1 200, Begin] (scenario_start mem) =
     Some \<lparr>buffer = take 200 p1 @ drop 200 mem, buffer_size = 1024, head = 200, count = 200,
      total_written = 0,
      should_run = True, running = True, exit_thread = False, fd = 3,
      pc = Drain, poll_count = 0, trace = [], accepted = take 200 p1\<rparr>"
proof -
  have "mem \<noteq> []" using assms by auto
  then show ?thesis using assms
    by (simp add: scenario_start_eq write_lw_def memcpy_def begin_iter_def get_read_ptr_def)
qed

lemma scenario_written:
  assumes "length mem = 1024" "200 \<le> length p1" "150 \<le> length p2"
  shows "exec 300 [Append p1 200, Begin, Append p2 150, Begin, Finish 350] (scenario_start mem) =
     Some \<lparr>buffer = take 200 p1 @ take 150 p2 @ drop 350 mem, buffer_size = 1024,
      head = 350, count = 0, total_written = 350,
      should_run = True, running = True, exit_thread = False, fd = 3,
      pc = Drain, poll_count = 1, trace = [SWrite 3 (take 200 p1 @ take 150 p2) 350],
      accepted = take 200 p1 @ take 150 p2\<rparr>"
proof -
  have "mem \<noteq> []" using assms by auto
  then show ?thesis using assms
    by (simp add: scenario_start_eq write_lw_def memcpy_def begin_iter_def get_read_ptr_def
        finish_iter_def finish_call_def sink_write_def mark_read_def end_iter_def Let_def)
qed

text \<open>
  A write is recorded with the descriptor it was called with: when \<^verbatim>\<open>start_log\<close> stores
  the descriptor 5 while the \<^verbatim>\<open>::write\<close> on the descriptor 3 is running, the call that
  returns is the one on 3.
\<close>

lemma write_names_descriptor_of_call:
  "map_option trace
     (exec 300 [Append (replicate 350 1) 350, Begin, Call, StartLog 5, Finish 350]
        (scenario_start (replicate 1024 0))) = Some [SWrite 3 (replicate 350 1) 350]"
  by (simp add: scenario_start_eq write_lw_def memcpy_def begin_iter_def get_read_ptr_def
      start_log_def finish_call_def sink_write_def mark_read_def end_iter_def Let_def)


text \<open>
  C7: at the top of a pass the worker samples the readable run under the mutex and goes
  on to the write exactly when \<open>available \<ge> min_chunk\<close>, or \<open>is_part\<close>, or
  \<^verbatim>\<open>_should_run\<close> is false; otherwise the state is unchanged and the worker stays
  where it is, waiting for the next \<^verbatim>\<open>notify\<close>. (Whether it then calls \<^verbatim>\<open>::write\<close>
  depends on \<open>available > 0\<close>, line 192.) In the scenario of the spec, with a chunk
  of 300 and a capacity of 1024, the worker is still waiting after a message of 200
  bytes, and after a further 150 bytes it writes the 350 bytes in one call and consumes
  them.
\<close>

theorem wait_condition:
  assumes "pc s = Drain"
  shows "(case get_read_ptr s of (read_ptr, available, is_part) \<Rightarrow>
           step mwc Begin s =
             Some (if mwc \<le> available \<or> is_part \<or> \<not> should_run s
                   then s\<lparr>pc := Writing read_ptr available is_part\<rparr> else s)) \<and>
         (length mem = 1024 \<and> 200 \<le> length p1 \<and> 150 \<le> length p2 \<longrightarrow>
           (\<exists>s1. exec 300 [Append p1 200, Begin] (scenario_start mem) = Some s1 \<and>
              pc s1 = Drain \<and> trace s1 = [] \<and> count s1 = 200) \<and>
           (\<exists>s2. exec 300 [Append p1 200, Begin, Append p2 150, Begin, Finish 350]
                    (scenario_start mem) = Some s2 \<and>
              trace s2 = [SWrite 3 (take 200 p1 @ take 150 p2) 350] \<and>
              count s2 = 0 \<and> pc s2 = Drain))"
proof -
  have a: "case get_read_ptr s of (read_ptr, available, is_part) \<Rightarrow>
           step mwc Begin s =
             Some (if mwc \<le> available \<or> is_part \<or> \<not> should_run s
                   then s\<lparr>pc := Writing read_ptr available is_part\<rparr> else s)"
    using assms by (simp add: begin_iter_def split: prod.splits)
  have b: "(\<exists>s1. exec 300 [Append p1 200, Begin] (scenario_start mem) = Some s1 \<and>
              pc s1 = Drain \<and> trace s1 = [] \<and> count s1 = 200) \<and>
           (\<exists>s2. exec 300 [Append p1 200, Begin, Append p2 150, Begin, Finish 350]
                    (scenario_start mem) = Some s2 \<and>
              trace s2 = [SWrite 3 (take 200 p1 @ take 150 p2) 350] \<and>
              count s2 = 0 \<and> pc s2 = Drain)"
    if l: "length mem = 1024" "200 \<le> length p1" "150 \<le> length p2"
    unfolding scenario_parked [OF l(1,2)] scenario_written [OF l] by simp
  from a b show ?thesis by blast
qed

theorem wait_condition_witness:
  "pc (scenario_start (replicate 1024 0)) = Drain \<and>
   get_read_ptr (scenario_start (replicate 1024 0)) = (0, 0, False) \<and>
   step 300 Begin (scenario_start (replicate 1024 0)) = Some (scenario_start (replicate 1024 0)) \<and>
   (\<exists>s2. exec 300 [Append (replicate 200 1) 200, Begin, Append (replicate 150 2) 150, Begin,
                     Finish 350] (scenario_start (replicate 1024 0)) = Some s2 \<and>
          trace s2 = [SWrite 3 (replicate 200 1 @ replicate 150 2) 350])"
proof -
  let ?w = "scenario_start (replicate 1024 0)"
  have e: "replicate 1024 (0 :: byte) \<noteq> []" by simp
  have p: "pc ?w = Drain" by (simp add: scenario_start_eq [OF e])
  have g: "get_read_ptr ?w = (0, 0, False)"
    by (simp add: scenario_start_eq [OF e] get_read_ptr_def)
  have s: "should_run ?w" by (simp add: scenario_start_eq [OF e])
  note t = wait_condition [OF p, of 300 "replicate 1024 0" "replicate 200 1" "replicate 150 2"]
  from t have "step 300 Begin ?w = Some ?w" unfolding g using s by simp
  moreover from t have "\<exists>s2. exec 300 [Append (replicate 200 1) 200, Begin,
      Append (replicate 150 2) 150, Begin, Finish 350] ?w = Some s2 \<and>
      trace s2 = [SWrite 3 (replicate 200 1 @ replicate 150 2) 350]"
    by auto
  ultimately show ?thesis using p g by blast
qed




text \<open>
  C10, as the spec states it: after a failed write the descriptor stays open and
  \<open>running\<close> stays true until a later session activation. In the scenario of the
  spec the write of the 350 bytes fails, which leaves the descriptor 3 open and
  \<open>running\<close> true; then, with no \<^verbatim>\<open>start_log\<close>, \<^verbatim>\<open>thread_stop\<close> is called and the
  worker is woken. It enters the drain loop, writes the 350 bytes, calls \<^verbatim>\<open>::close\<close>
  on the descriptor 3 and clears \<open>running\<close>.
\<close>

theorem write_error_then_thread_stop:
  "map_option trace
     (exec 300 [Append (replicate 350 1) 350, Begin, Finish (- 1), ThreadStop, Wake, Begin,
                Finish 350]
        (scenario_start (replicate 1024 0))) =
   Some [SWrite 3 (replicate 350 1) (- 1), SWrite 3 (replicate 350 1) 350, SClose 3] \<and>
   map_option fd
     (exec 300 [Append (replicate 350 1) 350, Begin, Finish (- 1)]
        (scenario_start (replicate 1024 0))) = Some 3 \<and>
   map_option running
     (exec 300 [Append (replicate 350 1) 350, Begin, Finish (- 1)]
        (scenario_start (replicate 1024 0))) = Some True \<and>
   map_option fd
     (exec 300 [Append (replicate 350 1) 350, Begin, Finish (- 1), ThreadStop, Wake, Begin,
                Finish 350]
        (scenario_start (replicate 1024 0))) = Some (- 1) \<and>
   map_option running
     (exec 300 [Append (replicate 350 1) 350, Begin, Finish (- 1), ThreadStop, Wake, Begin,
                Finish 350]
        (scenario_start (replicate 1024 0))) = Some False"
  by (simp add: scenario_start_eq write_lw_def memcpy_def begin_iter_def get_read_ptr_def
      stop_log_def thread_stop_def wake_def finish_iter_def finish_call_def sink_write_def
      mark_read_def end_iter_def close_log_def leave_loop_def Let_def)

text \<open>
  C10: when a \<^verbatim>\<open>::write\<close> that was called with the descriptor \<open>d\<close> and the bytes
  \<open>span\<close> returns a negative value, the worker clears \<^verbatim>\<open>_should_run\<close> and leaves the
  drain loop; it does not call \<^verbatim>\<open>::close\<close>, and the descriptor, \<open>running\<close>,
  \<open>head\<close>, \<open>count\<close> and the array are as before the pass. Nothing but
  \<^verbatim>\<open>start_log\<close> (which stores a new descriptor over the old one) or \<^verbatim>\<open>thread_stop\<close>
  changes the descriptor, \<open>running\<close> or the calls made on the sink afterwards.
\<close>

theorem write_error_aborts:
  assumes "in_flight s = Some (d, span, available, is_part)" and "0 < available"
    and "sint res < 0"
  shows "\<exists>s'. step mwc (Finish res) s = Some s' \<and>
           \<not> should_run s' \<and> pc s' = (if exit_thread s then Exited else Idle) \<and>
           fd s' = fd s \<and> running s' = running s \<and> head s' = head s \<and> count s' = count s \<and>
           buffer s' = buffer s \<and>
           trace s' = trace s @ calls_of d span res available s \<and>
           \<not> list_ex is_close (calls_of d span res available s) \<and>
           (\<not> exit_thread s \<longrightarrow>
             (\<forall>evs s''. (\<forall>e \<in> set evs. \<not> restarts e) \<and> exec mwc evs s' = Some s'' \<longrightarrow>
                pc s'' = Idle \<and> fd s'' = fd s \<and> running s'' = running s \<and>
                trace s'' = trace s')) \<and>
           (\<forall>opened. fd (start_log opened s') = opened)"
proof -
  let ?s' = "finish_call res d span available is_part s"
  have "sint res < 0 \<or> res \<le> available" using assms(3) by simp
  then have st: "step mwc (Finish res) s = Some ?s'" by (rule finish_in_flight [OF assms(1)])
  note f = failed_call [OF assms(2,3), where d = d and span = span and is_part = is_part
      and s = s]
  have nc: "\<not> list_ex is_close (calls_of d span res available s)"
    by (simp add: calls_of_def)
  have later: "pc s'' = Idle \<and> fd s'' = fd s \<and> running s'' = running s \<and> trace s'' = trace ?s'"
    if "\<not> exit_thread s" "\<forall>e \<in> set evs. \<not> restarts e" "exec mwc evs ?s' = Some s''" for evs s''
  proof -
    have "pc ?s' = Idle" "\<not> exit_thread ?s'" using f(2,3) that(1) by simp_all
    from idle_exec [OF that(3) that(2) this(1) f(1) this(2)] f(4,5) show ?thesis by simp
  qed
  have "fd (start_log opened ?s') = opened" for opened by (simp add: start_log_def)
  with st f(1,2,4-8,10) nc later show ?thesis by blast
qed

theorem write_error_aborts_witness:
  "in_flight failing = Some (3, replicate 900 0, 900, False) \<and> (0 :: size_t) < 900 \<and>
   sint (- 1 :: cint) < 0 \<and>
   (\<exists>s'. step 300 (Finish (- 1)) failing = Some s' \<and> \<not> should_run s' \<and> running s' \<and>
      fd s' = 3 \<and> count s' = 900 \<and> pc s' = Idle \<and>
      trace s' = [SWrite 3 (replicate 900 0) (- 1)])"
proof -
  have p: "in_flight failing = Some (3, replicate 900 0, 900, False)"
    by (simp add: failing_def attach_def full900_def in_flight_def)
  have a: "(0 :: size_t) < 900" by simp
  have n: "sint (- 1 :: cint) < 0" by simp
  from write_error_aborts [OF p a n, of 300] obtain s' where
    s': "step 300 (Finish (- 1)) failing = Some s'" by blast
  then have "s' = finish_iter (- 1) 0 900 False failing"
    by (simp add: failing_def attach_def)
  then show ?thesis using s' p
    by (simp add: failing_def attach_def full900_def finish_iter_def finish_call_def
        sink_write_def leave_loop_def Let_def)
qed

section \<open>The flush cadence\<close>

lemma finish_call_calls:
  "\<exists>c. trace (finish_call res d span available is_part s) =
         trace s @ calls_of d span res available s @ c \<and> (c = [] \<or> (\<exists>d. c = [SClose d]))"
  by (auto simp: finish_call_def end_iter_def close_log_def leave_loop_def mark_read_def
      sink_write_def calls_of_def Let_def word_gt_0)

lemma finish_call_poll_count:
  "poll_count (finish_call res d span available is_part s) =
     (if 0 < available then (if 100 \<le> poll_count s + 1 then 0 else poll_count s + 1)
      else poll_count s)"
  by (auto simp: finish_call_def end_iter_def close_log_def leave_loop_def mark_read_def
      sink_write_def Let_def word_gt_0)

lemma cadence_calls_of:
  assumes "cadence_inv k new (poll_count s)"
  shows "cadence_inv k (new @ calls_of d span res available s)
           (if 0 < available then (if 100 \<le> poll_count s + 1 then 0 else poll_count s + 1)
            else poll_count s)"
  using assms by (auto simp: cadence_inv_def calls_of_def)

lemma cadence_close:
  assumes "cadence_inv k new p"
  shows "cadence_inv k (new @ [SClose d]) p"
  using assms by (auto simp: cadence_inv_def)

lemma step_quiet:
  assumes "step mwc e s = Some s'" "e \<noteq> Wake" "\<forall>res. e \<noteq> Finish res"
  shows "trace s' = trace s \<and> poll_count s' = poll_count s"
proof (cases e)
  case (Append ptr sz)
  then show ?thesis using assms
    by (auto simp: write_lw_def Let_def split: if_splits prod.splits)
next
  case Call
  then show ?thesis using assms by (auto split: wpc.splits if_splits)
qed (use assms in \<open>auto simp: start_log_def stop_log_def thread_stop_def begin_iter_def
      split: if_splits prod.splits\<close>)

lemma step_cadence:
  assumes st: "step mwc e s = Some s'" and nw: "e \<noteq> Wake"
    and tr: "trace s = t0 @ new" and inv: "cadence_inv k new (poll_count s)"
  shows "\<exists>new'. trace s' = t0 @ new' \<and> cadence_inv k new' (poll_count s')"
proof (cases "\<exists>res. e = Finish res")
  case True
  then obtain res where e: "e = Finish res" by blast
  from st e obtain d span available is_part where
    s': "s' = finish_call res d span available is_part s"
    by (auto simp: finish_iter_def split: wpc.splits if_splits)
  from finish_call_calls [of res d span available is_part s] obtain c where
    c: "trace s' = trace s @ calls_of d span res available s @ c"
       "c = [] \<or> (\<exists>d. c = [SClose d])"
    unfolding s' by blast
  have p: "cadence_inv k (new @ calls_of d span res available s) (poll_count s')"
    unfolding s' finish_call_poll_count by (rule cadence_calls_of [OF inv])
  from c(2) show ?thesis
  proof
    assume "c = []"
    then show ?thesis using c(1) tr p by auto
  next
    assume "\<exists>d. c = [SClose d]"
    then obtain d' where d: "c = [SClose d']" by blast
    have "trace s' = t0 @ ((new @ calls_of d span res available s) @ [SClose d'])"
      using c(1) tr d by simp
    moreover have "cadence_inv k ((new @ calls_of d span res available s) @ [SClose d'])
        (poll_count s')"
      by (rule cadence_close [OF p])
    ultimately show ?thesis by blast
  qed
next
  case False
  then have "\<forall>res. e \<noteq> Finish res" by blast
  from step_quiet [OF st nw this] tr inv show ?thesis by auto
qed

lemma exec_cadence:
  assumes "exec mwc evs s = Some s'" "Wake \<notin> set evs"
    and "trace s = t0 @ new" "cadence_inv k new (poll_count s)"
  shows "\<exists>new'. trace s' = t0 @ new' \<and> cadence_inv k new' (poll_count s')"
  using assms
proof (induction evs arbitrary: s new)
  case Nil
  then show ?case by auto
next
  case (Cons e evs)
  from Cons.prems(1) obtain s1 where s1: "step mwc e s = Some s1" "exec mwc evs s1 = Some s'"
    by (auto split: option.splits)
  have nw: "e \<noteq> Wake" "Wake \<notin> set evs" using Cons.prems(2) by auto
  from step_cadence [OF s1(1) nw(1) Cons.prems(3,4)] obtain new1 where
    n1: "trace s1 = t0 @ new1" "cadence_inv k new1 (poll_count s1)" by blast
  from Cons.IH [OF s1(2) nw(2) n1] show ?case .
qed

lemma cadence_count:
  assumes "flush_cadence k tr"
  shows "k + length (filter is_write tr) = 100 * length (filter is_fsync tr) + since_flush k tr"
  using assms
proof (induction tr)
  case Nil
  then show ?case by simp
next
  case (Cons c tr)
  then show ?case by (cases c) auto
qed

text \<open>
  C4: take any moment at which \<^verbatim>\<open>poll_count\<close> is between 0 and 99, and any events
  after it in which the worker does not start a new run of the drain loop. Every
  \<^verbatim>\<open>fsync\<close> among the sink calls made comes directly after a write, which is the 100th
  write since the previous \<^verbatim>\<open>fsync\<close> (or since \<^verbatim>\<open>poll_count\<close> was 0), and no write
  is made while a flush is due; \<^verbatim>\<open>poll_count\<close> is the number of writes since the last
  \<^verbatim>\<open>fsync\<close>, so it is 0 after each. Hence writes and flushes are counted by
  \<open>poll_count + writes = 100 * flushes + poll_count'\<close>, and 100 writes from a counter of
  0 bring exactly one flush and a counter of 0. The count takes every \<^verbatim>\<open>::write\<close>
  call; a failed one ends the drain loop, so all others counted are successful.
\<close>

theorem flush_every_100:
  assumes "0 \<le> poll_count s" and "poll_count s < 100" and "Wake \<notin> set evs"
    and "exec mwc evs s = Some s'"
  shows "\<exists>new. trace s' = trace s @ new \<and>
           flush_cadence (nat (poll_count s)) (rev new) \<and>
           poll_count s' = int (since_flush (nat (poll_count s)) (rev new)) \<and>
           0 \<le> poll_count s' \<and> poll_count s' < 100 \<and>
           poll_count s + int (length (filter is_write new)) =
             100 * int (length (filter is_fsync new)) + poll_count s' \<and>
           (poll_count s = 0 \<and> length (filter is_write new) = 100 \<longrightarrow>
              length (filter is_fsync new) = 1 \<and> poll_count s' = 0)"
proof -
  let ?k = "nat (poll_count s)"
  have "cadence_inv ?k [] (poll_count s)" using assms(1,2) by (simp add: cadence_inv_def)
  from exec_cadence [OF assms(4,3) _ this, of "trace s"] obtain new where
    n: "trace s' = trace s @ new" "cadence_inv ?k new (poll_count s')" by auto
  have c: "flush_cadence ?k (rev new)" "poll_count s' = int (since_flush ?k (rev new))"
    "poll_count s' < 100"
    using n(2) by (simp_all add: cadence_inv_def)
  have "?k + length (filter is_write new) =
          100 * length (filter is_fsync new) + since_flush ?k (rev new)"
    using cadence_count [OF c(1)] by (simp flip: rev_filter)
  then have "int (?k + length (filter is_write new)) =
          int (100 * length (filter is_fsync new) + since_flush ?k (rev new))"
    by (rule arg_cong)
  then have eq: "poll_count s + int (length (filter is_write new)) =
             100 * int (length (filter is_fsync new)) + poll_count s'"
    using assms(1) c(2) by simp
  have nn: "0 \<le> poll_count s'" using c(2) by simp
  have "length (filter is_fsync new) = 1 \<and> poll_count s' = 0"
    if "poll_count s = 0" "length (filter is_write new) = 100"
  proof -
    have "100 * int (length (filter is_fsync new)) + poll_count s' = 100"
      using eq that by simp
    then have "int (length (filter is_fsync new)) = 1 \<and> poll_count s' = 0"
      using nn c(3) by presburger
    then show ?thesis by simp
  qed
  with n(1) c eq nn show ?thesis by blast
qed

theorem flush_every_100_witness:
  "0 \<le> poll_count hundredth \<and> poll_count hundredth < 100 \<and> Wake \<notin> set [Finish 900, Begin] \<and>
   (\<exists>s'. exec 300 [Finish 900, Begin] hundredth = Some s' \<and>
      trace s' = [SWrite 3 (replicate 900 0) 900, SFsync 3] \<and> poll_count s' = 0)"
proof -
  let ?s' = "\<lparr>buffer = replicate 1024 0, buffer_size = 1024, head = 900, count = 0,
      total_written = 900, should_run = True, running = True, exit_thread = False, fd = 3,
      pc = Drain, poll_count = 0, trace = [SWrite 3 (replicate 900 0) 900, SFsync 3],
      accepted = []\<rparr>"
  have a: "0 \<le> poll_count hundredth" "poll_count hundredth < 100"
    by (simp_all add: hundredth_def attach_def)
  have w: "Wake \<notin> set [Finish 900, Begin]" by simp
  have e: "exec 300 [Finish 900, Begin] hundredth = Some ?s'"
    by (simp add: hundredth_def attach_def full900_def finish_iter_def finish_call_def sink_write_def
        mark_read_def end_iter_def Let_def begin_iter_def get_read_ptr_def)
  from flush_every_100 [OF a w e] have "0 \<le> poll_count ?s'" by blast
  then show ?thesis using a w e by simp
qed

section \<open>Draining a region that goes round the end\<close>

lemma wrapped_unread:
  fixes s :: "'a log_writer_scheme"
  assumes inv: "ring_inv s" and w: "head s < count s"
  shows "unread s = drop (read_pos s) (buffer s) @ take (unat (head s)) (buffer s)"
proof -
  note i = ring_inv_nat [OF inv]
  have lt: "unat (head s) < unat (count s)" using w by (simp add: word_less_nat_alt)
  have rp: "read_pos s = unat (head s) + unat (buffer_size s) - unat (count s)"
    using lt by (simp add: read_pos_cases [OF inv])
  have "rotate (read_pos s) (buffer s) = drop (read_pos s) (buffer s) @ take (read_pos s) (buffer s)"
    using read_pos_less [OF inv] i(3) by (simp add: rotate_drop_take)
  moreover have "unat (count s) - (unat (buffer_size s) - read_pos s) = unat (head s)"
    using rp lt i by simp
  moreover have "unat (buffer_size s) - read_pos s \<le> unat (count s)" using rp lt i by simp
  moreover have "unat (head s) \<le> read_pos s" using rp i by simp
  ultimately show ?thesis using i(3) by (simp add: unread_def min_def)
qed

lemma wrapped_available:
  fixes h c n :: "32 word"
  shows "n - (h - c + n) = c - h"
  by simp

lemma wrapped_first_pass:
  assumes inv: "ring_inv s" "fits_int s" and pc: "pc s = Drain" and w: "head s < count s"
  defines "tail \<equiv> drop (read_pos s) (buffer s)"
  defines "s1 \<equiv> s\<lparr>trace := trace s @ sink_calls (count s - head s)
                       (head s - count s + buffer_size s) (count s - head s) s,
                  poll_count := (if 100 \<le> poll_count s + 1 then 0 else poll_count s + 1),
                  count := head s, total_written := total_written s + (count s - head s),
                  pc := Drain\<rparr>"
  shows "exec mwc [Begin, Finish (count s - head s)] s = Some s1"
    and "filter is_write (sink_calls (count s - head s)
            (head s - count s + buffer_size s) (count s - head s) s) =
         [SWrite (fd s) tail (count s - head s)]"
    and "length tail = unat (count s - head s)"
proof -
  note g = get_read_ptr_wrapped [OF inv w]
  let ?rp = "head s - count s + buffer_size s" and ?av = "count s - head s"
  have g1: "get_read_ptr s = (?rp, ?av, True)" using g(1) by (simp only: wrapped_available)
  have av: "unat ?av = unat (buffer_size s) - read_pos s"
    using g(3) by (simp only: wrapped_available)
  have pos: "0 < ?av" using w by (simp add: word_gt_0)
  have small: "\<not> sint ?av < 0"
    using av inv(2) by (intro small_nonneg) (simp add: fits_int_def)
  have b: "begin_iter mwc s = s\<lparr>pc := Writing ?rp ?av True\<rparr>"
    by (simp add: begin_iter_def g1)
  have le: "?av \<le> count s" using w by unat_arith
  have cnt: "count s - ?av = head s" by simp
  have "finish_iter ?av ?rp ?av True (s\<lparr>pc := Writing ?rp ?av True\<rparr>) = s1"
    using pos small
    by (simp add: finish_iter_def finish_call_def end_iter_def mark_read_def sink_write_def sink_calls_def calls_of_def
        Let_def s1_def)
  then show "exec mwc [Begin, Finish (count s - head s)] s = Some s1"
    using pc b by simp
  show len: "length tail = unat (count s - head s)"
    using av ring_inv_nat(3) [OF inv(1)] by (simp add: tail_def)
  show "filter is_write (sink_calls ?av ?rp ?av s) = [SWrite (fd s) tail ?av]"
    using pos g(2) len by (simp add: sink_calls_def calls_of_def tail_def)
qed


lemma sink_calls_pc [simp]:
  "sink_calls res read_ptr available (s\<lparr>pc := p\<rparr>) = sink_calls res read_ptr available s"
  by (simp add: sink_calls_def calls_of_def)

lemma plain_full_pass:
  assumes inv: "ring_inv s" "fits_int s" and pc: "pc s = Drain" and nw: "\<not> head s < count s"
    and pos: "0 < count s" and go: "mwc \<le> count s \<or> \<not> should_run s"
  shows "\<exists>s' c. exec mwc [Begin, Finish (count s)] s = Some s' \<and>
           trace s' = trace s @ sink_calls (count s) (head s - count s) (count s) s @ c \<and>
           filter is_write c = [] \<and> count s' = 0 \<and>
           filter is_write (sink_calls (count s) (head s - count s) (count s) s) =
             [SWrite (fd s) (unread s) (count s)]"
proof -
  note g = get_read_ptr_plain [OF inv nw]
  note f = get_read_ptr_facts [OF inv g(1)]
  let ?rp = "head s - count s" and ?av = "count s"
  let ?w = "s\<lparr>pc := Writing ?rp ?av False\<rparr>"
  let ?s' = "finish_iter ?av ?rp ?av False ?w"
  have b: "begin_iter mwc s = ?w" using go by (auto simp: begin_iter_def g(1))
  have small: "\<not> sint ?av < 0"
    using ring_inv_nat(2) [OF inv(1)] inv(2) by (intro small_nonneg) (simp add: fits_int_def)
  then have ok: "?av = 0 \<or> \<not> sint ?av < 0" by simp
  have ex: "exec mwc [Begin, Finish ?av] s = Some ?s'" using pc b by simp
  have span: "take (unat ?av) (drop (unat ?rp) (buffer s)) = unread s"
    using f(6) length_unread [OF inv(1)] by simp
  have w: "filter is_write (sink_calls ?av ?rp ?av s) = [SWrite (fd s) (unread s) ?av]"
    using pos span by (simp add: sink_calls_def calls_of_def)
  have "\<exists>c. trace ?s' = trace s @ sink_calls ?av ?rp ?av s @ c \<and> filter is_write c = [] \<and>
            count ?s' = 0"
  proof (cases "should_run s")
    case True
    then have "\<not> (\<not> should_run ?w \<and> (?av = 0 \<or> ?av = ?av) \<and> \<not> False)" by simp
    from continuing_pass(2,7) [OF ok this, of ?rp] pos show ?thesis by simp
  next
    case False
    then have "\<not> should_run ?w" "?av = 0 \<or> ?av = ?av" "\<not> False" by simp_all
    from closing_pass(3,8) [OF ok this, of ?rp] show ?thesis by simp
  qed
  with ex w show ?thesis by blast
qed

text \<open>
  C5, as the spec states it: every region that crosses the end of the array is drained by
  exactly two writes, the tail segment and then the head segment. In the scenario of the spec (chunk 300,
  capacity 1024, descriptor 3), 1004 bytes are written and drained, and then a message
  puts 20 bytes at the end of the array and the rest at its start. When the sink takes
  only 8 of the 20 bytes, the region of 320 bytes is drained by three writes. When a
  message of 5 bytes is accepted between the passes, the second write holds 305 bytes.
  When the message had 30 bytes, so that 10 are at the start of the array, the worker
  makes one write and then waits in line 186 with the 10 bytes unread.
\<close>

theorem wrapped_region_other_writes:
  "map_option trace
     (exec 300 [Append (replicate 1004 0) 1004, Begin, Finish 1004,
                Append (replicate 20 2 @ replicate 300 1) 320,
                Begin, Finish 8, Begin, Finish 12, Begin, Finish 300]
        (scenario_start (replicate 1024 0))) =
   Some [SWrite 3 (replicate 1004 0) 1004, SWrite 3 (replicate 20 2) 8,
         SWrite 3 (replicate 12 2) 12, SWrite 3 (replicate 300 1) 300] \<and>
   map_option trace
     (exec 300 [Append (replicate 1004 0) 1004, Begin, Finish 1004,
                Append (replicate 20 2 @ replicate 300 1) 320,
                Begin, Finish 20, Append (replicate 5 7) 5, Begin, Finish 305]
        (scenario_start (replicate 1024 0))) =
   Some [SWrite 3 (replicate 1004 0) 1004, SWrite 3 (replicate 20 2) 20,
         SWrite 3 (replicate 300 1 @ replicate 5 7) 305] \<and>
   map_option trace
     (exec 300 [Append (replicate 1004 0) 1004, Begin, Finish 1004,
                Append (replicate 20 2 @ replicate 10 1) 30,
                Begin, Finish 20, Begin]
        (scenario_start (replicate 1024 0))) =
   Some [SWrite 3 (replicate 1004 0) 1004, SWrite 3 (replicate 20 2) 20] \<and>
   map_option count
     (exec 300 [Append (replicate 1004 0) 1004, Begin, Finish 1004,
                Append (replicate 20 2 @ replicate 10 1) 30,
                Begin, Finish 20, Begin]
        (scenario_start (replicate 1024 0))) = Some 10 \<and>
   map_option pc
     (exec 300 [Append (replicate 1004 0) 1004, Begin, Finish 1004,
                Append (replicate 20 2 @ replicate 10 1) 30,
                Begin, Finish 20, Begin]
        (scenario_start (replicate 1024 0))) = Some Drain"
  by (simp add: scenario_start_eq write_lw_def memcpy_def begin_iter_def get_read_ptr_def
      finish_iter_def finish_call_def sink_write_def mark_read_def end_iter_def Let_def)

text \<open>
  C5: let the unread region cross the end of the array (\<open>0 < head < count\<close>) with the
  worker at the top of a pass, let no message arrive meanwhile and let the sink take every
  byte it is offered. The first pass makes one write: the segment from \<open>read_pos\<close> to
  the end of the array. What is left unread is the segment from the start of the array
  up to \<open>head\<close>, and the two segments in this order are the unread region. The next
  pass writes that second segment in one call and leaves nothing unread; it is made at
  once when the segment reaches the chunk size or a stop is requested, and otherwise the
  worker waits in line 186 with the segment still unread. Both writes hand the sink a run
  of consecutive bytes of the array itself.
\<close>

theorem wrapped_region_two_writes:
  assumes "ring_inv s" and "fits_int s" and "pc s = Drain"
    and "0 < head s" and "head s < count s"
  shows "\<exists>s1 new1.
           exec mwc [Begin, Finish (count s - head s)] s = Some s1 \<and>
           trace s1 = trace s @ new1 \<and>
           filter is_write new1 =
             [SWrite (fd s) (drop (read_pos s) (buffer s)) (count s - head s)] \<and>
           length (drop (read_pos s) (buffer s)) = unat (count s - head s) \<and>
           drop (read_pos s) (buffer s) @ take (unat (head s)) (buffer s) = unread s \<and>
           unread s1 = take (unat (head s)) (buffer s) \<and> pc s1 = Drain \<and>
           (\<not> (mwc \<le> head s \<or> \<not> should_run s) \<longrightarrow> step mwc Begin s1 = Some s1) \<and>
           (mwc \<le> head s \<or> \<not> should_run s \<longrightarrow>
              (\<exists>s' new. exec mwc [Begin, Finish (count s - head s), Begin, Finish (head s)] s
                           = Some s' \<and>
                 trace s' = trace s @ new \<and>
                 filter is_write new =
                   [SWrite (fd s) (drop (read_pos s) (buffer s)) (count s - head s),
                    SWrite (fd s) (take (unat (head s)) (buffer s)) (head s)] \<and>
                 length (take (unat (head s)) (buffer s)) = unat (head s) \<and>
                 count s' = 0))"
proof -
  let ?c1 = "sink_calls (count s - head s) (head s - count s + buffer_size s) (count s - head s) s"
  let ?s1 = "s\<lparr>trace := trace s @ ?c1,
                  poll_count := (if 100 \<le> poll_count s + 1 then 0 else poll_count s + 1),
                  count := head s, total_written := total_written s + (count s - head s),
                  pc := Drain\<rparr>"
  note p1 = wrapped_first_pass(1) [OF assms(1,2,3,5), of mwc]
    wrapped_first_pass(2,3) [OF assms(1,2,3,5)]
  note i = ring_inv_nat [OF assms(1)]
  have inv1: "ring_inv ?s1" "fits_int ?s1"
    using assms(1,2) by (auto simp: ring_inv_def fits_int_def intro: less_imp_le)
  have pc1: "pc ?s1 = Drain" by simp
  have nw1: "\<not> head ?s1 < count ?s1" by simp
  have pos1: "0 < count ?s1" using assms(4) by simp
  have u1: "unread ?s1 = take (unat (head s)) (buffer s)"
  proof -
    have "read_pos ?s1 = 0" by (simp add: read_pos_def)
    then show ?thesis using i(1,3) by (simp add: unread_def)
  qed
  have parked: "step mwc Begin ?s1 = Some ?s1" if "\<not> (mwc \<le> head s \<or> \<not> should_run s)"
  proof -
    have "get_read_ptr ?s1 = (head ?s1 - count ?s1, count ?s1, False)"
      by (rule get_read_ptr_plain(1) [OF inv1 nw1])
    then show ?thesis using that by (simp add: begin_iter_def)
  qed
  have both: "\<exists>s' new. exec mwc [Begin, Finish (count s - head s), Begin, Finish (head s)] s
                           = Some s' \<and>
                 trace s' = trace s @ new \<and>
                 filter is_write new =
                   [SWrite (fd s) (drop (read_pos s) (buffer s)) (count s - head s),
                    SWrite (fd s) (take (unat (head s)) (buffer s)) (head s)] \<and>
                 length (take (unat (head s)) (buffer s)) = unat (head s) \<and>
                 count s' = 0"
    if go: "mwc \<le> head s \<or> \<not> should_run s"
  proof -
    have go1: "mwc \<le> count ?s1 \<or> \<not> should_run ?s1" using go by simp
    from plain_full_pass [OF inv1 pc1 nw1 pos1 go1] obtain s' c where
      s': "exec mwc [Begin, Finish (head s)] ?s1 = Some s'"
        "trace s' = trace ?s1 @ sink_calls (count ?s1) (head ?s1 - count ?s1) (count ?s1) ?s1 @ c"
        "filter is_write c = []" "count s' = 0"
        "filter is_write (sink_calls (count ?s1) (head ?s1 - count ?s1) (count ?s1) ?s1) =
           [SWrite (fd ?s1) (unread ?s1) (count ?s1)]"
      by auto
    have ex: "exec mwc ([Begin, Finish (count s - head s)] @ [Begin, Finish (head s)]) s = Some s'"
      unfolding exec_append p1(1) using s'(1) by simp
    let ?new = "?c1 @ sink_calls (count ?s1) (head ?s1 - count ?s1) (count ?s1) ?s1 @ c"
    have tr: "trace s' = trace s @ ?new" using s'(2) by simp
    have fw: "filter is_write ?new =
               [SWrite (fd s) (drop (read_pos s) (buffer s)) (count s - head s),
                SWrite (fd s) (take (unat (head s)) (buffer s)) (head s)]"
      using p1(2) s'(3,5) u1 by simp
    have l2: "length (take (unat (head s)) (buffer s)) = unat (head s)" using i(1,3) by simp
    from ex tr fw l2 s'(4) show ?thesis
      by (intro exI [of _ s'] exI [of _ ?new]) simp
  qed
  have "trace ?s1 = trace s @ ?c1" by simp
  with p1 wrapped_unread [OF assms(1,5)] u1 pc1 parked both show ?thesis
    by (intro exI [of _ ?s1] exI [of _ ?c1]) simp
qed

theorem wrapped_region_two_writes_witness:
  "ring_inv (attach ring6 Drain 0) \<and> fits_int (attach ring6 Drain 0) \<and>
   unread (attach ring6 Drain 0) = [5, 6, 1] \<and>
   (\<exists>s'. exec 1 [Begin, Finish 2, Begin, Finish 1] (attach ring6 Drain 0) = Some s' \<and>
      trace s' = [SWrite 3 [5, 6] 2, SWrite 3 [1] 1] \<and> count s' = 0)"
proof -
  let ?w = "attach ring6 Drain 0"
  have h: "ring_inv ?w" "fits_int ?w" "pc ?w = Drain" "0 < head ?w" "head ?w < count ?w"
    by (simp_all add: attach_def ring6_def ring_inv_def fits_int_def)
  have e: "exec 1 [Begin, Finish 2, Begin, Finish 1] ?w \<noteq> None"
    using wrapped_region_two_writes [OF h, of 1]
    by (auto simp: attach_def ring6_def)
  show ?thesis using h(1,2) e
    by (simp add: attach_def ring6_def begin_iter_def get_read_ptr_def finish_iter_def finish_call_def
        sink_write_def mark_read_def end_iter_def Let_def unread_def read_pos_def
        rotate_drop_take)
qed

section \<open>First in, first out\<close>

lemma ring_fields:
  fixes s :: "'a log_writer_scheme" and s' :: "'b log_writer_scheme"
  assumes "buffer s' = buffer s" "buffer_size s' = buffer_size s" "head s' = head s"
    "count s' = count s"
  shows "ring_inv s' = ring_inv s" "fits_int s' = fits_int s" "read_pos s' = read_pos s"
    "unread s' = unread s"
  using assms by (simp_all add: ring_inv_def fits_int_def read_pos_def unread_def)

lemma write_lw_worker:
  fixes s :: worker
  shows "pc (snd (write_lw ptr sz s)) = pc s" "trace (snd (write_lw ptr sz s)) = trace s"
    "accepted (snd (write_lw ptr sz s)) = accepted s"
    "should_run (snd (write_lw ptr sz s)) = should_run s"
    "poll_count (snd (write_lw ptr sz s)) = poll_count s"
  by (simp_all add: write_lw_def Let_def split: prod.splits)

lemma append_step:
  assumes st: "step mwc (Append ptr sz) s = Some s'" and inv: "fifo_inv s"
  shows "fifo_inv s'"
    and "accepted s' = accepted s @ (if fst (write_lw ptr sz s) then take (unat sz) ptr else [])"
proof -
  have len: "unat sz \<le> length ptr" using st by (simp split: if_splits)
  have ri: "ring_inv s" "fits_int s" "sample_ok s"
    using inv by (simp_all add: fifo_inv_def session_inv_def)
  have "fifo_inv s' \<and>
    accepted s' = accepted s @ (if fst (write_lw ptr sz s) then take (unat sz) ptr else [])"
  proof (cases "sz > buffer_size s - count s")
    case True
    then have "s' = s" using st len by (simp add: write_lw_rejected)
    then show ?thesis using inv True by (simp add: write_lw_rejected)
  next
    case False
    note n = write_lw_nat [OF ri(1) False, of ptr]
    obtain w where wl: "write_lw ptr sz s = (True, w)"
      using n(1) by (cases "write_lw ptr sz s") auto
    have sw: "snd (write_lw ptr sz s) = w" by (simp add: wl)
    note ww = write_lw_worker [of ptr sz s, unfolded sw]
    have s': "s' = w\<lparr>accepted := accepted s @ take (unat sz) ptr\<rparr>"
      using st len by (simp add: wl ww(3))
    note f = ring_fields [of s' w]
    have fe: "buffer s' = buffer w" "buffer_size s' = buffer_size w" "head s' = head w"
      "count s' = count w" by (simp_all add: s')
    have r': "ring_inv s'"
      unfolding f(1) [OF fe] using write_lw_ring_inv [OF ri(1) len] by (simp add: sw)
    have fi': "fits_int s'"
      unfolding f(2) [OF fe] using ri(2) n(5) by (simp add: fits_int_def sw)
    have rp': "read_pos s' = read_pos s"
      unfolding f(3) [OF fe] using write_lw_read_pos [OF ri(1) False len] by (simp add: sw)
    have u': "unread s' = unread s @ take (unat sz) ptr"
      unfolding f(4) [OF fe] using write_lw_unread [OF ri(1) False len] by (simp add: sw)
    have o: "pc s' = pc s" "trace s' = trace s" "should_run s' = should_run s"
      "buffer_size s' = buffer_size s" "unat (count s') = unat (count s) + unat sz"
      using n(4,5) by (simp_all add: s' ww sw)
    have so: "sample_ok s'"
      using ri(3) length_unread [OF ri(1)] unfolding sample_ok_def o(1) rp' o(4) o(5) u'
      by (auto split: wpc.splits)
    have "delivered (trace s') @ unread s' = accepted s'"
      using inv unfolding o(2) u' by (simp add: fifo_inv_def s')
    then show ?thesis using r' fi' so o(1,3) inv
      by (simp add: fifo_inv_def session_inv_def s' wl)
  qed
  then show "fifo_inv s'"
    and "accepted s' = accepted s @ (if fst (write_lw ptr sz s) then take (unat sz) ptr else [])"
    by blast+
qed

lemma begin_step:
  assumes st: "step mwc Begin s = Some s'" and inv: "fifo_inv s"
  shows "fifo_inv s'" and "accepted s' = accepted s"
proof -
  have ri: "ring_inv s" "fits_int s" using inv by (simp_all add: fifo_inv_def session_inv_def)
  obtain read_ptr available is_part where g: "get_read_ptr s = (read_ptr, available, is_part)"
    by (cases "get_read_ptr s") auto
  note f = get_read_ptr_facts [OF ri g]
  have pc: "pc s = Drain" and s': "s' = begin_iter mwc s" using st by (auto split: if_splits)
  have "fifo_inv s' \<and> accepted s' = accepted s"
  proof (cases "mwc \<le> available \<or> is_part \<or> \<not> should_run s")
    case True
    then have e: "s' = s\<lparr>pc := Writing read_ptr available is_part\<rparr>"
      by (simp add: s' begin_iter_def g)
    have "sample_ok s'" using f(1,4,5) by (simp add: e sample_ok_def read_pos_def)
    then show ?thesis using inv pc
      by (simp add: e fifo_inv_def session_inv_def ring_inv_def fits_int_def unread_def read_pos_def)
  next
    case False
    then have "s' = s" by (simp add: s' begin_iter_def g)
    then show ?thesis using inv by simp
  qed
  then show "fifo_inv s'" and "accepted s' = accepted s" by blast+
qed


lemma call_step:
  assumes st: "step mwc Call s = Some s'" and inv: "fifo_inv s"
  shows "fifo_inv s'" and "accepted s' = accepted s"
proof -
  have ri: "ring_inv s" "fits_int s" "sample_ok s"
    using inv by (simp_all add: fifo_inv_def session_inv_def)
  from st obtain read_ptr available is_part where
    pc: "pc s = Writing read_ptr available is_part"
    and s': "s' = s\<lparr>pc := Called (fd s)
                     (take (unat available) (drop (unat read_ptr) (buffer s)))
                     available is_part\<rparr>"
    by (auto split: wpc.splits if_splits)
  have so: "unat read_ptr = read_pos s" "unat available \<le> unat (count s)"
    "read_pos s + unat available \<le> unat (buffer_size s)"
    using ri(3) pc by (simp_all add: sample_ok_def)
  have sp: "take (unat available) (drop (unat read_ptr) (buffer s)) =
            take (unat available) (unread s)"
    unfolding so(1) by (rule prefix_of_unread [OF ri(1) so(2,3)])
  have fe: "buffer s' = buffer s" "buffer_size s' = buffer_size s" "head s' = head s"
    "count s' = count s" by (simp_all add: s')
  note r = ring_fields [of s' s, OF fe]
  have "sample_ok s'" unfolding sample_ok_def r(4) using sp so(2) by (simp add: s')
  moreover have "trace s' = trace s" "accepted s' = accepted s" "should_run s' = should_run s"
    by (simp_all add: s')
  ultimately have "fifo_inv s'" using inv pc r
    by (simp add: fifo_inv_def session_inv_def)
  then show "fifo_inv s'" and "accepted s' = accepted s" by (simp_all add: s')
qed

lemma finish_call_accepted:
  "accepted (finish_call res d span available is_part s) = accepted s"
  by (auto simp: finish_call_def end_iter_def close_log_def leave_loop_def mark_read_def
      sink_write_def Let_def)

lemma finish_step:
  assumes st: "step mwc (Finish res) s = Some s'" and inv: "fifo_inv s"
  shows "fifo_inv s'" and "accepted s' = accepted s"
proof -
  have ri: "ring_inv s" "fits_int s" "sample_ok s"
    and fifo: "delivered (trace s) @ unread s = accepted s"
    using inv by (simp_all add: fifo_inv_def session_inv_def)
  have "\<exists>d span available is_part.
          in_loop (pc s) \<and> (sint res < 0 \<or> res \<le> available) \<and>
          s' = finish_call res d span available is_part s \<and>
          span = take (unat available) (unread s) \<and> unat available \<le> unat (count s)"
  proof (cases "pc s")
    case (Writing read_ptr available is_part)
    have so: "unat read_ptr = read_pos s" "unat available \<le> unat (count s)"
      "read_pos s + unat available \<le> unat (buffer_size s)"
      using ri(3) Writing by (simp_all add: sample_ok_def)
    have sp: "take (unat available) (drop (unat read_ptr) (buffer s)) =
              take (unat available) (unread s)"
      unfolding so(1) by (rule prefix_of_unread [OF ri(1) so(2,3)])
    show ?thesis using st Writing sp so(2) by (auto simp: finish_iter_def split: if_splits)
  next
    case (Called d span available is_part)
    then show ?thesis using st ri(3) by (auto simp: sample_ok_def split: if_splits)
  qed (use st in simp_all)
  then obtain d span available is_part where il: "in_loop (pc s)"
    and en: "sint res < 0 \<or> res \<le> available"
    and s': "s' = finish_call res d span available is_part s"
    and sp: "span = take (unat available) (unread s)"
    and le0: "unat available \<le> unat (count s)"
    by blast
  have sr: "should_run s" using inv il by (simp add: fifo_inv_def)
  have acc: "accepted s' = accepted s" unfolding s' by (rule finish_call_accepted)
  have "fifo_inv s'"
  proof (cases "0 < available \<and> sint res < 0")
    case True
    note f = failed_call [OF conjunct1 [OF True] conjunct2 [OF True],
        where d = d and span = span and is_part = is_part and s = s, folded s']
    note r = ring_fields [of s' s, OF f(8,9,6,7)]
    have "delivered (calls_of d span res available s) = []"
      using True by (simp add: delivered_calls_of)
    then have "delivered (trace s') @ unread s' = accepted s'"
      using fifo f(10) r(4) acc by (simp add: delivered_append)
    moreover have nl: "\<not> in_loop (pc s')" using f(2) by simp
    moreover have "sample_ok s'" using nl
      by (cases "pc s'") (simp_all add: sample_ok_def)
    ultimately show ?thesis using r(1,2) ri
      by (simp add: fifo_inv_def session_inv_def)
  next
    case False
    then have ok: "available = 0 \<or> \<not> sint res < 0" by (auto simp: word_gt_0)
    have cont: "\<not> (\<not> should_run s \<and> (available = 0 \<or> res = available) \<and> \<not> is_part)"
      using sr by simp
    note c = continuing_call [OF ok cont, where d = d and span = span, folded s']
    have so': "sample_ok s'" using c(1) by (simp add: sample_ok_def)
    show ?thesis
    proof (cases "0 < available")
      case True
      then have nn: "\<not> sint res < 0" and le: "res \<le> available" using ok en by auto
      have lec: "res \<le> count s"
        using le le0 by (simp add: word_le_nat_alt)
      let ?m = "mark_read res s"
      have fe: "buffer s' = buffer ?m" "buffer_size s' = buffer_size ?m" "head s' = head ?m"
        "count s' = count ?m"
        using c(5,7,8,9) True by (simp_all add: mark_read_def)
      note r = ring_fields [of s' ?m, OF fe]
      have r1: "ring_inv s'" unfolding r(1) by (rule mark_read_nat(3) [OF ri(1) lec])
      have r2: "fits_int s'" using ri(2) c(9) by (simp add: fits_int_def)
      have u: "unread s' = drop (unat res) (unread s)"
        unfolding r(4) by (rule mark_read_unread [OF ri(1) lec])
      have "unat res \<le> unat available" using le by (simp add: word_le_nat_alt)
      then have d: "delivered (calls_of d span res available s) = take (unat res) (unread s)"
        using True nn sp by (simp add: delivered_calls_of min_def)
      have "delivered (trace s') @ unread s' = accepted s'"
        using fifo unfolding c(2) u acc by (simp add: delivered_append d)
      then show ?thesis using r1 r2 so' sr c(6) by (simp add: fifo_inv_def session_inv_def)
    next
      case False
      have fe: "buffer s' = buffer s" "buffer_size s' = buffer_size s" "head s' = head s"
        "count s' = count s"
        using c(5,7,8,9) False by simp_all
      note r = ring_fields [of s' s, OF fe]
      have "delivered (calls_of d span res available s) = []"
        using False by (simp add: delivered_calls_of)
      then have "delivered (trace s') @ unread s' = accepted s'"
        using fifo unfolding c(2) r(4) acc by (simp add: delivered_append)
      then show ?thesis using r(1,2) ri so' sr c(6) by (simp add: fifo_inv_def session_inv_def)
    qed
  qed
  then show "fifo_inv s'" and "accepted s' = accepted s" using acc by blast+
qed

lemma session_step:
  assumes "step mwc e s = Some s'" "session_event e" "fifo_inv s"
  shows "fifo_inv s'"
    and "accepted s' = accepted s @
           (case e of Append ptr sz \<Rightarrow> if fst (write_lw ptr sz s) then payload e else []
            | _ \<Rightarrow> [])"
  using assms append_step begin_step call_step finish_step
  by (cases e; simp)+

text \<open>
  While a session runs (\<^verbatim>\<open>_should_run\<close> stays set), messages may arrive and the worker
  drain in any order, the sink taking all or part of what each write offers, or failing:
  at every moment the bytes delivered to the sink, followed by the bytes still unread in
  the buffer, are the bytes of the accepted messages in call order.
\<close>

lemma session_exec:
  assumes "exec mwc evs s = Some s'" "list_all session_event evs" "fifo_inv s"
  shows "fifo_inv s'"
    and "no_overflow mwc evs s \<Longrightarrow> accepted s' = accepted s @ concat (map payload evs)"
proof -
  have "fifo_inv s' \<and> (no_overflow mwc evs s \<longrightarrow> accepted s' = accepted s @ concat (map payload evs))"
    using assms
  proof (induction evs arbitrary: s)
    case Nil
    then show ?case by simp
  next
    case (Cons e evs)
    from Cons.prems(1) obtain s1 where s1: "step mwc e s = Some s1" "exec mwc evs s1 = Some s'"
      by (auto split: option.splits)
    have se: "session_event e" "list_all session_event evs" using Cons.prems(2) by simp_all
    note st = session_step [OF s1(1) se(1) Cons.prems(3)]
    from Cons.IH [OF s1(2) se(2) st(1)] st(2) s1(1) show ?case
      by (cases e) auto
  qed
  then show "fifo_inv s'"
    and "no_overflow mwc evs s \<Longrightarrow> accepted s' = accepted s @ concat (map payload evs)"
    by blast+
qed


lemma session_start_fifo:
  assumes "session_start s"
  shows "fifo_inv s"
  using assms
  by (simp add: session_start_def fifo_inv_def session_inv_def sample_ok_def unread_def
      delivered_def)

lemma session_fifo:
  assumes "session_start s0" and "list_all session_event evs" and "exec mwc evs s0 = Some s"
  shows "delivered (trace s) @ unread s = accepted s"
    and "no_overflow mwc evs s0 \<Longrightarrow> accepted s = concat (map payload evs)"
proof -
  note e = session_exec [OF assms(3,2) session_start_fifo [OF assms(1)]]
  show "delivered (trace s) @ unread s = accepted s"
    using e(1) by (simp add: fifo_inv_def)
  have "accepted s0 = []" using assms(1) by (simp add: session_start_def)
  then show "accepted s = concat (map payload evs)" if "no_overflow mwc evs s0"
    using e(2) [OF that] by simp
qed

text \<open>
  C1: the bytes of an accepted message are lost when the message arrives while the last
  \<^verbatim>\<open>::write\<close> of the session is running. In the scenario of the spec (chunk 300,
  capacity 1024, descriptor 3) a message of 350 bytes is accepted and the worker calls
  \<^verbatim>\<open>::write\<close> with them; while the call runs, a message of 10 bytes is accepted
  (\<^verbatim>\<open>write\<close> returns true, the 360 bytes fit the buffer) and \<^verbatim>\<open>stop_log\<close> is called;
  then \<^verbatim>\<open>::write\<close> returns 350. The condition of line 220 compares \<open>written\<close> with
  the 350 bytes sampled before the call, so the worker closes the file and sets
  \<open>count\<close> to 0 with the 10 bytes unread: the sink received the 350 bytes only, and
  no later pass writes the rest.
\<close>

theorem late_message_lost:
  "map_option accepted
     (exec 300 [Append (replicate 350 1) 350, Begin, Call, Append (replicate 10 2) 10,
                StopLog, Finish 350]
        (scenario_start (replicate 1024 0))) = Some (replicate 350 1 @ replicate 10 2) \<and>
   map_option trace
     (exec 300 [Append (replicate 350 1) 350, Begin, Call, Append (replicate 10 2) 10,
                StopLog, Finish 350]
        (scenario_start (replicate 1024 0))) =
     Some [SWrite 3 (replicate 350 1) 350, SClose 3] \<and>
   delivered [SWrite 3 (replicate 350 1) 350, SClose 3] = replicate 350 1 \<and>
   map_option count
     (exec 300 [Append (replicate 350 1) 350, Begin, Call, Append (replicate 10 2) 10,
                StopLog, Finish 350]
        (scenario_start (replicate 1024 0))) = Some 0 \<and>
   map_option running
     (exec 300 [Append (replicate 350 1) 350, Begin, Call, Append (replicate 10 2) 10,
                StopLog, Finish 350]
        (scenario_start (replicate 1024 0))) = Some False \<and>
   map_option pc
     (exec 300 [Append (replicate 350 1) 350, Begin, Call, Append (replicate 10 2) 10,
                StopLog, Finish 350]
        (scenario_start (replicate 1024 0))) = Some Idle"
  by (simp add: scenario_start_eq write_lw_def memcpy_def begin_iter_def get_read_ptr_def
      stop_log_def finish_call_def sink_write_def mark_read_def end_iter_def close_log_def
      leave_loop_def Let_def delivered_def)

end
